theory Spec2Isabelle
  imports Main "HOL-Library.AList" "HOL-Library.Sublist" "HOL-Library.Word"
begin

section \<open>Documents: the values behind Go's \<open>map[string]any\<close>\<close>

text \<open>
  The client package of terraform-provider-openclaw handles the gateway
  configuration as the dynamic tree that \<open>encoding/json\<close> produces: an \<open>any\<close> holds
  \<open>nil\<close>, a \<open>bool\<close>, a \<open>float64\<close>, a \<open>string\<close>, a \<open>[]any\<close> or a \<open>map[string]any\<close>.
  None of the code modelled here inspects a number, so the numeric payload is a type
  parameter.

  A Go map is a finite table with one entry per key and no order. It is modelled as an
  association list: \<open>m[k]\<close> is \<open>map_of m k\<close>, \<open>m[k] = v\<close> is \<open>AList.update k v m\<close>
  and \<open>delete(m, k)\<close> is \<open>AList.delete k m\<close>. The list order stands for whatever
  order a \<open>range\<close> loop visits the entries in, so a theorem about every list with distinct
  keys is a theorem about every iteration order. Maps are values here: the result of an
  operation is the table it holds when the call returns.
\<close>

datatype 'n anyval =
    VNil
  | VBool bool
  | VNumber 'n
  | VString string
  | VList "'n anyval list"
  | VMap "(string \<times> 'n anyval) list"

type_synonym 'n gomap = "(string \<times> 'n anyval) list"

text \<open>A \<open>map[string]any\<close> variable may be the nil map: \<open>None\<close>.\<close>

definition make_if_nil :: "'n gomap option \<Rightarrow> 'n gomap" where
  "make_if_nil target = (case target of None \<Rightarrow> [] | Some m \<Rightarrow> m)"

definition is_map :: "'n anyval \<Rightarrow> bool" where
  "is_map v = (case v of VMap _ \<Rightarrow> True | _ \<Rightarrow> False)"

lemma size_entry: "(k, v) \<in> set m \<Longrightarrow> size v < size (VMap m)"
  by (induction m) auto

section \<open>The merge-patch engine\<close>

text \<open>
  \<open>mergePatch\<close> (file.go): the nil target is replaced by a fresh map, then the loop
  \<open>for key, patchVal := range patch\<close> updates the target entry by entry, with the
  branches in the order of the source: delete on \<open>nil\<close>; for a map-valued patch entry
  store it when the target has no such key, recurse when the target's value is a map,
  store it otherwise; store every other value.
\<close>

function mergePatch :: "'n gomap option \<Rightarrow> 'n gomap \<Rightarrow> 'n gomap" where
  "mergePatch target patch =
     fold (\<lambda>(key, patchVal) target.
        if patchVal = VNil then AList.delete key target
        else (case patchVal of
           VMap patchMap \<Rightarrow>
             (case map_of target key of
                None \<Rightarrow> AList.update key (VMap patchMap) target
              | Some targetVal \<Rightarrow>
                 (case targetVal of
                    VMap targetMap \<Rightarrow>
                      AList.update key (VMap (mergePatch (Some targetMap) patchMap)) target
                  | _ \<Rightarrow> AList.update key (VMap patchMap) target))
         | _ \<Rightarrow> AList.update key patchVal target))
       patch (make_if_nil target)"
  by pat_completeness auto
termination
proof (relation "measure (\<lambda>(t, p). size (VMap p))", goal_cases)
  case 1
  show ?case by simp
next
  case (2 target patch x key patchVal acc patchMap targetVal targetMap)
  then show ?case
    using size_entry[of key patchVal patch] by simp
qed

declare mergePatch.simps [simp del]

text \<open>One iteration of the loop body, for the proofs.\<close>

definition patch_key :: "string \<Rightarrow> 'n anyval \<Rightarrow> 'n gomap \<Rightarrow> 'n gomap" where
  "patch_key key patchVal target =
     (if patchVal = VNil then AList.delete key target
      else (case patchVal of
         VMap patchMap \<Rightarrow>
           (case map_of target key of
              None \<Rightarrow> AList.update key (VMap patchMap) target
            | Some targetVal \<Rightarrow>
               (case targetVal of
                  VMap targetMap \<Rightarrow>
                    AList.update key (VMap (mergePatch (Some targetMap) patchMap)) target
                | _ \<Rightarrow> AList.update key (VMap patchMap) target))
       | _ \<Rightarrow> AList.update key patchVal target))"

text \<open>
  A patch in which no key has the null value, neither at the top nor in a map nested
  under a key (the elements of a list are not keys).
\<close>

fun no_null_keys :: "'n anyval \<Rightarrow> bool" where
  "no_null_keys (VMap m) = (\<forall>(k, v) \<in> set m. v \<noteq> VNil \<and> no_null_keys v)"
| "no_null_keys v = True"

text \<open>A tree in which every map has one entry per key, as every Go map has.\<close>

fun unique_keys :: "'n anyval \<Rightarrow> bool" where
  "unique_keys (VMap m) = (distinct (map fst m) \<and> (\<forall>(k, v) \<in> set m. unique_keys v))"
| "unique_keys (VList xs) = (\<forall>v \<in> set xs. unique_keys v)"
| "unique_keys v = True"

subsection \<open>The loop, key by key\<close>

lemma mergePatch_fold:
  "mergePatch target patch =
     fold (\<lambda>(key, patchVal). patch_key key patchVal) patch (make_if_nil target)"
  unfolding mergePatch.simps[of target patch] patch_key_def
  by (rule arg_cong[where f="\<lambda>f. fold f patch (make_if_nil target)"]) (auto simp: fun_eq_iff)

lemma patch_key_other:
  "k \<noteq> key \<Longrightarrow> map_of (patch_key key v t) k = map_of t k"
  by (auto simp: patch_key_def update_conv' delete_conv' split: anyval.splits option.splits)

lemma patch_key_same:
  "map_of (patch_key key v t) key =
     (case v of
        VNil \<Rightarrow> None
      | VMap pm \<Rightarrow> (case map_of t key of
            Some (VMap tm) \<Rightarrow> Some (VMap (mergePatch (Some tm) pm))
          | _ \<Rightarrow> Some (VMap pm))
      | _ \<Rightarrow> Some v)"
  by (auto simp: patch_key_def update_conv' delete_conv' split: anyval.splits option.splits)

lemma fold_patch_absent:
  "k \<notin> fst ` set patch \<Longrightarrow>
     map_of (fold (\<lambda>(key, patchVal). patch_key key patchVal) patch t) k = map_of t k"
  by (induction patch arbitrary: t) (auto simp: patch_key_other)

lemma fold_patch_present:
  "distinct (map fst patch) \<Longrightarrow> (k, v) \<in> set patch \<Longrightarrow>
     map_of (fold (\<lambda>(key, patchVal). patch_key key patchVal) patch t) k
       = map_of (patch_key k v t) k"
proof (induction patch arbitrary: t)
  case Nil
  then show ?case by simp
next
  case (Cons e patch)
  obtain k' v' where e: "e = (k', v')" by (cases e)
  show ?case
  proof (cases "(k, v) = e")
    case True
    with Cons.prems have "k \<notin> fst ` set patch" by force
    with True show ?thesis by (simp add: fold_patch_absent flip: True)
  next
    case False
    with Cons.prems have in_rest: "(k, v) \<in> set patch" and d: "distinct (map fst patch)"
      by auto
    with Cons.prems e have ne: "k \<noteq> k'" by force
    have "map_of (fold (\<lambda>(key, patchVal). patch_key key patchVal) patch (patch_key k' v' t)) k
          = map_of (patch_key k v (patch_key k' v' t)) k"
      using Cons.IH[OF d in_rest] .
    also have "\<dots> = map_of (patch_key k v t) k"
      using ne by (simp add: patch_key_same patch_key_other split: anyval.split)
    finally show ?thesis by (simp add: e)
  qed
qed

lemma mergePatch_lookup:
  assumes "distinct (map fst patch)"
  shows "map_of (mergePatch target patch) key =
     (case map_of patch key of
        None \<Rightarrow> map_of (make_if_nil target) key
      | Some VNil \<Rightarrow> None
      | Some (VMap pm) \<Rightarrow> (case map_of (make_if_nil target) key of
            Some (VMap tm) \<Rightarrow> Some (VMap (mergePatch (Some tm) pm))
          | _ \<Rightarrow> Some (VMap pm))
      | Some v \<Rightarrow> Some v)"
proof (cases "map_of patch key")
  case None
  then have "key \<notin> fst ` set patch" by (simp add: map_of_eq_None_iff)
  with None show ?thesis by (simp add: mergePatch_fold fold_patch_absent)
next
  case (Some v)
  then have "(key, v) \<in> set patch" by (rule map_of_SomeD)
  with assms Some show ?thesis
    by (simp add: mergePatch_fold fold_patch_present patch_key_same split: anyval.split)
qed

text \<open>
  C1. For every target map and every patch (a Go map: one entry per key), whatever the
  order the loop visits the patch in: a key whose patch value is the null marker is
  absent from the result, whether or not the target had it; where the patch value and
  the target's value are both maps the result holds the merge of the two; every other
  key of the patch holds the patch's value outright; a key the patch does not mention
  keeps what the target had; and the nil target gives what the empty map gives.
\<close>

theorem mergePatch_algorithm:
  "distinct (map fst patch) \<Longrightarrow>
     (map_of patch key = Some VNil \<longrightarrow> map_of (mergePatch target patch) key = None) \<and>
     (\<forall>pm tm. map_of patch key = Some (VMap pm) \<and>
               map_of (make_if_nil target) key = Some (VMap tm) \<longrightarrow>
          map_of (mergePatch target patch) key = Some (VMap (mergePatch (Some tm) pm))) \<and>
     (\<forall>v. map_of patch key = Some v \<and> v \<noteq> VNil \<and>
           \<not> (is_map v \<and> (\<exists>tv. map_of (make_if_nil target) key = Some tv \<and> is_map tv)) \<longrightarrow>
          map_of (mergePatch target patch) key = Some v) \<and>
     (map_of patch key = None \<longrightarrow>
          map_of (mergePatch target patch) key = map_of (make_if_nil target) key) \<and>
     mergePatch None patch = mergePatch (Some []) patch"
proof -
  assume d: "distinct (map fst patch)"
  note L = mergePatch_lookup[OF d, of target key]
  have c1: "map_of patch key = Some VNil \<longrightarrow> map_of (mergePatch target patch) key = None"
    using L by simp
  have c2: "\<forall>pm tm. map_of patch key = Some (VMap pm) \<and>
               map_of (make_if_nil target) key = Some (VMap tm) \<longrightarrow>
          map_of (mergePatch target patch) key = Some (VMap (mergePatch (Some tm) pm))"
    using L by simp
  have c3: "\<forall>v. map_of patch key = Some v \<and> v \<noteq> VNil \<and>
           \<not> (is_map v \<and> (\<exists>tv. map_of (make_if_nil target) key = Some tv \<and> is_map tv)) \<longrightarrow>
          map_of (mergePatch target patch) key = Some v"
    using L by (auto simp: is_map_def split: anyval.splits option.splits)
  have c4: "map_of patch key = None \<longrightarrow>
          map_of (mergePatch target patch) key = map_of (make_if_nil target) key"
    using L by simp
  have c5: "mergePatch None patch = mergePatch (Some []) patch"
    by (simp add: mergePatch_fold make_if_nil_def)
  from c1 c2 c3 c4 c5 show ?thesis by blast
qed

theorem mergePatch_algorithm_witness:
  "map_of (mergePatch (Some [(''a'', VNumber (1::int)), (''b'', VNumber 2),
                             (''nested'', VMap [(''x'', VNumber 1), (''y'', VNumber 2)])])
                      [(''b'', VNil), (''gone'', VNil),
                       (''nested'', VMap [(''y'', VNumber 3), (''z'', VNumber 4)]),
                       (''s'', VString ''t'')]) ''b'' = None
   \<and> map_of (mergePatch (Some [(''a'', VNumber (1::int)), (''b'', VNumber 2),
                             (''nested'', VMap [(''x'', VNumber 1), (''y'', VNumber 2)])])
                      [(''b'', VNil), (''gone'', VNil),
                       (''nested'', VMap [(''y'', VNumber 3), (''z'', VNumber 4)]),
                       (''s'', VString ''t'')]) ''nested''
       = Some (VMap [(''x'', VNumber 1), (''y'', VNumber 3), (''z'', VNumber 4)])
   \<and> map_of (mergePatch (Some [(''a'', VNumber (1::int)), (''b'', VNumber 2),
                             (''nested'', VMap [(''x'', VNumber 1), (''y'', VNumber 2)])])
                      [(''b'', VNil), (''gone'', VNil),
                       (''nested'', VMap [(''y'', VNumber 3), (''z'', VNumber 4)]),
                       (''s'', VString ''t'')]) ''s'' = Some (VString ''t'')
   \<and> map_of (mergePatch (Some [(''a'', VNumber (1::int)), (''b'', VNumber 2),
                             (''nested'', VMap [(''x'', VNumber 1), (''y'', VNumber 2)])])
                      [(''b'', VNil), (''gone'', VNil),
                       (''nested'', VMap [(''y'', VNumber 3), (''z'', VNumber 4)]),
                       (''s'', VString ''t'')]) ''a'' = Some (VNumber 1)"
proof -
  define T :: "int gomap" where
    "T = [(''a'', VNumber 1), (''b'', VNumber 2),
          (''nested'', VMap [(''x'', VNumber 1), (''y'', VNumber 2)])]"
  define P :: "int gomap" where
    "P = [(''b'', VNil), (''gone'', VNil),
          (''nested'', VMap [(''y'', VNumber 3), (''z'', VNumber 4)]),
          (''s'', VString ''t'')]"
  have d: "distinct (map fst P)" by (simp add: P_def)
  have sub: "mergePatch (Some [(''x'', VNumber (1::int)), (''y'', VNumber 2)])
                [(''y'', VNumber 3), (''z'', VNumber 4)]
             = [(''x'', VNumber 1), (''y'', VNumber 3), (''z'', VNumber 4)]"
    by code_simp
  have 1: "map_of (mergePatch (Some T) P) ''b'' = None"
    using mergePatch_algorithm[OF d, of "''b''" "Some T"] by (simp add: P_def)
  have 2: "map_of (mergePatch (Some T) P) ''nested''
             = Some (VMap [(''x'', VNumber 1), (''y'', VNumber 3), (''z'', VNumber 4)])"
    using mergePatch_algorithm[OF d, of "''nested''" "Some T"] sub
    by (simp add: P_def T_def make_if_nil_def)
  have 3: "map_of (mergePatch (Some T) P) ''s'' = Some (VString ''t'')"
    using mergePatch_algorithm[OF d, of "''s''" "Some T"] by (simp add: P_def is_map_def)
  have 4: "map_of (mergePatch (Some T) P) ''a'' = Some (VNumber 1)"
    using mergePatch_algorithm[OF d, of "''a''" "Some T"]
    by (simp add: P_def T_def make_if_nil_def)
  from 1 2 3 4 show ?thesis unfolding T_def P_def by blast
qed

subsection \<open>Applying a patch twice\<close>

lemma fold_fixed:
  "(\<And>e. e \<in> set xs \<Longrightarrow> f e t = t) \<Longrightarrow> fold f xs t = t"
  by (induction xs) auto

lemma patch_key_mapval:
  "patch_key k (VMap pm) t =
     AList.update k
       (VMap (case map_of t k of Some (VMap tm) \<Rightarrow> mergePatch (Some tm) pm | _ \<Rightarrow> pm)) t"
  by (simp add: patch_key_def split: option.split anyval.split)

lemma patch_key_scalar:
  "v \<noteq> VNil \<Longrightarrow> \<not> is_map v \<Longrightarrow> patch_key k v t = AList.update k v t"
  by (cases v) (simp_all add: patch_key_def is_map_def)

lemma mergePatch_onto_empty:
  assumes dpm: "distinct (map fst pm)" and nn: "\<forall>(j, w) \<in> set pm. w \<noteq> VNil"
  shows "map_of pm = map_of (mergePatch (Some []) pm)"
proof
  fix j
  show "map_of pm j = map_of (mergePatch (Some []) pm) j"
  proof (cases "map_of pm j")
    case None
    then show ?thesis by (simp add: mergePatch_lookup[OF dpm] make_if_nil_def)
  next
    case (Some w)
    then have "(j, w) \<in> set pm" by (rule map_of_SomeD)
    with nn have "w \<noteq> VNil" by auto
    with Some show ?thesis
      by (simp add: mergePatch_lookup[OF dpm] make_if_nil_def split: anyval.split)
  qed
qed

text \<open>
  Every table that agrees, key by key, with the result of a merge is left as it is by
  the same patch. The induction follows the recursion of \<open>mergePatch\<close>.
\<close>

lemma mergePatch_again:
  "unique_keys (VMap patch) \<Longrightarrow> no_null_keys (VMap patch) \<Longrightarrow>
     map_of t = map_of (mergePatch target patch) \<Longrightarrow>
     mergePatch (Some t) patch = t"
proof (induction target patch arbitrary: t rule: mergePatch.induct)
  case (1 target patch)
  have d: "distinct (map fst patch)" using "1.prems"(1) by simp
  have "fold (\<lambda>(key, patchVal). patch_key key patchVal) patch t = t"
  proof (rule fold_fixed)
    fix e assume e: "e \<in> set patch"
    obtain k v where kv: "e = (k, v)" by (cases e)
    from e kv d have look: "map_of patch k = Some v" by simp
    from e kv "1.prems" have nn: "v \<noteq> VNil" and uv: "unique_keys v" and nv: "no_null_keys v"
      by auto
    note L = mergePatch_lookup[OF d, of target k]
    show "(case e of (key, patchVal) \<Rightarrow> patch_key key patchVal) t = t"
    proof (cases v)
      case (VMap pm)
      show ?thesis
      proof (cases "\<exists>tm. map_of (make_if_nil target) k = Some (VMap tm)")
        case True
        then obtain tm where tm: "map_of (make_if_nil target) k = Some (VMap tm)" by blast
        have res: "map_of t k = Some (VMap (mergePatch (Some tm) pm))"
          using L look VMap tm "1.prems"(3) by simp
        have "mergePatch (Some (mergePatch (Some tm) pm)) pm = mergePatch (Some tm) pm"
          using "1.IH"[OF e kv[symmetric] _ VMap tm refl, of "mergePatch (Some tm) pm"]
            nn uv nv VMap
          by simp
        with res show ?thesis by (simp add: kv VMap patch_key_mapval update_triv)
      next
        case False
        have res: "map_of t k = Some (VMap pm)"
          using L look VMap False "1.prems"(3) by (auto split: option.splits anyval.splits)
        have em: "map_of [(k, VMap ([]::'a gomap))] k = Some (VMap [])" by simp
        have dpm: "distinct (map fst pm)" using uv VMap by simp
        have "map_of pm = map_of (mergePatch (Some []) pm)"
          using nv VMap by (intro mergePatch_onto_empty[OF dpm]) auto
        then have "mergePatch (Some pm) pm = pm"
          using "1.IH"[OF e kv[symmetric] _ VMap em refl, of pm] nn uv nv VMap
          by simp
        with res show ?thesis by (simp add: kv VMap patch_key_mapval update_triv)
      qed
    next
      case VNil with nn show ?thesis by simp
    qed (use look L "1.prems"(3) in \<open>simp_all add: kv patch_key_scalar is_map_def update_triv\<close>)
  qed
  then show ?case by (simp add: mergePatch_fold make_if_nil_def)
qed

text \<open>
  C7. For every base document \<open>D\<close> (the nil map included) and every patch \<open>P\<close> with no
  null-valued key, at the top or in a map nested under a key, merging \<open>P\<close> a second
  time changes nothing: \<open>merge(merge(D, P), P) = merge(D, P)\<close>, as the same table and
  so as the same document.
\<close>

theorem mergePatch_idempotent:
  "unique_keys (VMap P) \<Longrightarrow> no_null_keys (VMap P) \<Longrightarrow>
     mergePatch (Some (mergePatch D P)) P = mergePatch D P"
  by (rule mergePatch_again) simp_all

theorem mergePatch_idempotent_witness:
  "unique_keys (VMap [(''nested'', VMap [(''b'', VNumber (3::int)), (''c'', VNumber 4)])])
   \<and> no_null_keys (VMap [(''nested'', VMap [(''b'', VNumber (3::int)), (''c'', VNumber 4)])])
   \<and> mergePatch (Some (mergePatch
          (Some [(''nested'', VMap [(''a'', VNumber 1), (''b'', VNumber 2)])])
          [(''nested'', VMap [(''b'', VNumber (3::int)), (''c'', VNumber 4)])]))
          [(''nested'', VMap [(''b'', VNumber 3), (''c'', VNumber 4)])]
       = mergePatch (Some [(''nested'', VMap [(''a'', VNumber 1), (''b'', VNumber 2)])])
          [(''nested'', VMap [(''b'', VNumber 3), (''c'', VNumber 4)])]"
proof -
  have u: "unique_keys (VMap [(''nested'', VMap [(''b'', VNumber (3::int)), (''c'', VNumber 4)])])"
    by simp
  have n: "no_null_keys (VMap [(''nested'', VMap [(''b'', VNumber (3::int)), (''c'', VNumber 4)])])"
    by simp
  from u n mergePatch_idempotent[OF u n,
      of "Some [(''nested'', VMap [(''a'', VNumber 1), (''b'', VNumber 2)])]"]
  show ?thesis by blast
qed

text \<open>
  The hypothesis reaches into nested maps for a reason: a map-valued patch entry is
  stored as it is where the target has no map at that key, nulls included, and the
  second application then deletes the keys those nulls sit under.
\<close>

lemma mergePatch_nested_null_twice:
  "mergePatch (Some []) [(''a'', VMap [(''b'', VNil)])]
     = [(''a'', VMap [(''b'', (VNil :: int anyval))])]
   \<and> mergePatch (Some (mergePatch (Some []) [(''a'', VMap [(''b'', VNil)])]))
        [(''a'', VMap [(''b'', VNil)])]
     = [(''a'', VMap ([] :: int gomap))]"
  by code_simp

section \<open>Errors, the standard library and the file system\<close>

text \<open>
  A Go \<open>error\<close> is kept as the code builds it: \<open>fmt.Errorf\<close> with its format string
  and arguments (\<open>%w\<close> wraps another error), the \<open>*PathError\<close> of package \<open>os\<close>
  (operation, path, cause), or the error of another library by its text.
\<close>

datatype fmtarg =
    ArgS string
  | ArgD int
  | ArgQ string
  | ArgV "string list"
  | ArgE "goerr option"
  | ArgW goerr
and goerr =
    Errorf string "fmtarg list"
  | PathError string string string
  | LibError string

text \<open>
  The functions of Go's standard library that the client calls are parameters:
  \<open>json.Unmarshal\<close> into a \<open>map[string]any\<close> (it leaves the nil map on the document
  \<open>null\<close>), \<open>json.MarshalIndent\<close> with the empty prefix and two spaces,
  \<open>sha256.Sum256\<close>, \<open>hex.EncodeToString\<close> and \<open>filepath.Dir\<close>.
\<close>

record 'n stdlib =
  json_Unmarshal :: "string \<Rightarrow> string + 'n gomap option"
  json_MarshalIndent :: "'n gomap \<Rightarrow> string + string"
  sha256_Sum256 :: "string \<Rightarrow> string"
  hex_EncodeToString :: "string \<Rightarrow> string"
  filepath_Dir :: "string \<Rightarrow> string"

text \<open>
  The file system as far as the client touches it: the regular files by path, the
  directories \<open>MkdirAll\<close> has made, and the failures the operating system may answer
  with, each a \<open>*PathError\<close> given by its operation and cause. A failed write leaves at
  the path whatever the fault says (the file may have been truncated before the failure).
\<close>

record filesys =
  files :: "string \<rightharpoonup> string"
  dirs :: "string set"
  read_fault :: "string \<rightharpoonup> string \<times> string"
  mkdir_fault :: "string \<rightharpoonup> string \<times> string"
  write_fault :: "string \<rightharpoonup> string \<times> string \<times> string option"

definition ENOENT :: string where
  "ENOENT = ''no such file or directory''"

definition os_ReadFile :: "filesys \<Rightarrow> string \<Rightarrow> goerr + string" where
  "os_ReadFile fs name =
     (case read_fault fs name of
        Some (op, cause) \<Rightarrow> Inl (PathError op name cause)
      | None \<Rightarrow> (case files fs name of
            None \<Rightarrow> Inl (PathError ''open'' name ENOENT)
          | Some data \<Rightarrow> Inr data))"

fun os_IsNotExist :: "goerr \<Rightarrow> bool" where
  "os_IsNotExist (PathError op name cause) = (cause = ENOENT)"
| "os_IsNotExist err = False"

definition os_MkdirAll :: "filesys \<Rightarrow> string \<Rightarrow> goerr option \<times> filesys" where
  "os_MkdirAll fs dir =
     (case mkdir_fault fs dir of
        Some (op, cause) \<Rightarrow> (Some (PathError op dir cause), fs)
      | None \<Rightarrow> (None, fs\<lparr>dirs := insert dir (dirs fs)\<rparr>))"

definition os_WriteFile :: "filesys \<Rightarrow> string \<Rightarrow> string \<Rightarrow> goerr option \<times> filesys" where
  "os_WriteFile fs name data =
     (case write_fault fs name of
        Some (op, cause, residue) \<Rightarrow>
          (Some (PathError op name cause), fs\<lparr>files := (files fs)(name := residue)\<rparr>)
      | None \<Rightarrow> (None, fs\<lparr>files := (files fs)(name \<mapsto> data)\<rparr>))"

section \<open>The client interface and the document transport\<close>

record 'n ConfigPayload =
  Raw :: string
  Hash :: string
  Parsed :: "'n gomap option"

record HealthPayload =
  OK :: bool
  Timestamp :: "64 word"
  DurationMs :: "64 word"
  DefaultAgentID :: string
  HeartbeatSecs :: "64 word"

text \<open>\<open>parseRawJSON\<close> (client.go).\<close>

definition parseRawJSON :: "'n stdlib \<Rightarrow> string \<Rightarrow> goerr + 'n gomap option" where
  "parseRawJSON lib raw =
     (case json_Unmarshal lib raw of
        Inl err \<Rightarrow> Inl (Errorf ''json unmarshal: %w'' [ArgW (LibError err)])
      | Inr result \<Rightarrow> Inr result)"

text \<open>
  \<open>FileClient\<close> (file.go). Its mutex is held for the whole of every operation, so an
  operation is one function from the file system to the file system.
\<close>

record FileClient =
  path :: string

definition hashBytes :: "'n stdlib \<Rightarrow> string \<Rightarrow> string" where
  "hashBytes lib data = hex_EncodeToString lib (sha256_Sum256 lib data)"

definition ensureDir :: "'n stdlib \<Rightarrow> filesys \<Rightarrow> string \<Rightarrow> goerr option \<times> filesys" where
  "ensureDir lib fs filePath = os_MkdirAll fs (filepath_Dir lib filePath)"

definition getConfigLocked ::
  "'n stdlib \<Rightarrow> FileClient \<Rightarrow> filesys \<Rightarrow> goerr + 'n ConfigPayload" where
  "getConfigLocked lib f fs =
     (case os_ReadFile fs (path f) of
        Inl err \<Rightarrow>
          if os_IsNotExist err
          then Inr \<lparr>Raw = ''{}'', Hash = hashBytes lib ''{}'', Parsed = None\<rparr>
          else Inl (Errorf ''reading %s: %w'' [ArgS (path f), ArgW err])
      | Inr data \<Rightarrow> Inr \<lparr>Raw = data, Hash = hashBytes lib data, Parsed = None\<rparr>)"

definition GetConfig ::
  "'n stdlib \<Rightarrow> FileClient \<Rightarrow> filesys \<Rightarrow> goerr + 'n ConfigPayload" where
  "GetConfig lib f fs = getConfigLocked lib f fs"

definition PatchConfig ::
  "'n stdlib \<Rightarrow> FileClient \<Rightarrow> 'n gomap \<Rightarrow> string \<Rightarrow> filesys \<Rightarrow> goerr option \<times> filesys" where
  "PatchConfig lib f patch baseHash fs =
     (case getConfigLocked lib f fs of
        Inl err \<Rightarrow> (Some err, fs)
      | Inr cfg \<Rightarrow>
         (case parseRawJSON lib (Raw cfg) of
            Inl err \<Rightarrow> (Some (Errorf ''parsing existing config: %w'' [ArgW err]), fs)
          | Inr existing \<Rightarrow>
             (let merged = mergePatch existing patch in
              case json_MarshalIndent lib merged of
                Inl err \<Rightarrow> (Some (Errorf ''marshaling config: %w'' [ArgW (LibError err)]), fs)
              | Inr out \<Rightarrow>
                 (case ensureDir lib fs (path f) of
                    (Some err, fs') \<Rightarrow> (Some err, fs')
                  | (None, fs') \<Rightarrow> os_WriteFile fs' (path f) out))))"

definition ApplyConfig ::
  "'n stdlib \<Rightarrow> FileClient \<Rightarrow> string \<Rightarrow> string \<Rightarrow> filesys \<Rightarrow> goerr option \<times> filesys" where
  "ApplyConfig lib f raw baseHash fs =
     (case ensureDir lib fs (path f) of
        (Some err, fs') \<Rightarrow> (Some err, fs')
      | (None, fs') \<Rightarrow> os_WriteFile fs' (path f) raw)"

definition Health :: "FileClient \<Rightarrow> goerr + HealthPayload" where
  "Health f = Inl (Errorf ''health check not available in file mode (no running gateway)'' [])"

definition health_unsupported :: goerr where
  "health_unsupported = Errorf ''health check not available in file mode (no running gateway)'' []"

definition Close :: "FileClient \<Rightarrow> goerr option" where
  "Close f = None"

text \<open>
  A stand-in for the standard library, for the examples: it parses and prints the
  documents the examples use, and its digest is the identity.
\<close>

definition example_lib :: "int stdlib" where
  "example_lib = \<lparr>
     json_Unmarshal = (\<lambda>raw.
        if raw = ''{}'' then Inr (Some [])
        else if raw = ''null'' then Inr None
        else if raw = ''{\"a\":1}'' then Inr (Some [(''a'', VNumber 1)])
        else if raw = ''{\"channels\":{\"whatsapp\":{\"dmPolicy\":\"pairing\"}}}''
        then Inr (Some [(''channels'',
                VMap [(''whatsapp'', VMap [(''dmPolicy'', VString ''pairing'')])])])
        else Inl ''invalid character''),
     json_MarshalIndent = (\<lambda>m.
        if m = [] then Inr ''{}''
        else if m = [(''a'', VNumber 1), (''b'', VNumber 2)] then Inr ''{\"a\":1,\"b\":2}''
        else Inl ''unsupported value''),
     sha256_Sum256 = (\<lambda>data. data),
     hex_EncodeToString = (\<lambda>data. data),
     filepath_Dir = (\<lambda>name. ''/etc'') \<rparr>"

definition example_file :: FileClient where
  "example_file = \<lparr>path = ''/etc/openclaw.json''\<rparr>"

definition example_fs :: "string option \<Rightarrow> filesys" where
  "example_fs content = \<lparr>
     files = (\<lambda>name. if name = ''/etc/openclaw.json'' then content else None),
     dirs = {},
     read_fault = Map.empty,
     mkdir_fault = Map.empty,
     write_fault = Map.empty \<rparr>"

subsection \<open>Reading\<close>

text \<open>
  C3. Where nothing exists at the transport's path, \<open>GetConfig\<close> succeeds and returns
  the empty document: \<open>Raw\<close> is the two bytes \<open>{}\<close> and \<open>Hash\<close> is the digest of those
  two bytes, by the digest function that an existing file's contents go through.
\<close>

theorem getConfig_missing_file:
  "files fs (path f) = None \<Longrightarrow> read_fault fs (path f) = None \<Longrightarrow>
     GetConfig lib f fs = Inr \<lparr>Raw = ''{}'', Hash = hashBytes lib ''{}'', Parsed = None\<rparr> \<and>
     length ''{}'' = 2 \<and>
     (\<forall>fs' data. files fs' (path f) = Some data \<and> read_fault fs' (path f) = None \<longrightarrow>
        GetConfig lib f fs' = Inr \<lparr>Raw = data, Hash = hashBytes lib data, Parsed = None\<rparr>)"
  by (simp add: GetConfig_def getConfigLocked_def os_ReadFile_def)

theorem getConfig_missing_file_witness:
  "files (example_fs None) (path example_file) = None \<and>
   read_fault (example_fs None) (path example_file) = None \<and>
   GetConfig example_lib example_file (example_fs None)
     = Inr \<lparr>Raw = ''{}'', Hash = hashBytes example_lib ''{}'', Parsed = None\<rparr>"
proof -
  have a: "files (example_fs None) (path example_file) = None"
    by (simp add: example_fs_def example_file_def)
  have b: "read_fault (example_fs None) (path example_file) = None"
    by (simp add: example_fs_def)
  from a b getConfig_missing_file[OF a b, of example_lib] show ?thesis by blast
qed

subsection \<open>Writing\<close>

lemma example_merge:
  "mergePatch (Some [(''a'', VNumber (1::int))]) [(''b'', VNumber 2)]
     = [(''a'', VNumber 1), (''b'', VNumber 2)]"
  by code_simp

text \<open>
  C2. The base hash never enters the computation of \<open>PatchConfig\<close>: two calls that
  differ only in the hash have the same outcome in every state. Whenever the file holds a
  JSON object (and the merged document serialises, and the operating system carries out
  the directory creation and the write), the call succeeds and leaves in the file the
  serialisation of the merge of the parsed current content with the patch.
\<close>

theorem patchConfig_ignores_baseHash:
  "PatchConfig lib f patch h fs = PatchConfig lib f patch h' fs \<and>
   (files fs (path f) = Some content \<and> read_fault fs (path f) = None \<and>
    json_Unmarshal lib content = Inr (Some doc) \<and>
    json_MarshalIndent lib (mergePatch (Some doc) patch) = Inr out \<and>
    mkdir_fault fs (filepath_Dir lib (path f)) = None \<and> write_fault fs (path f) = None \<longrightarrow>
      PatchConfig lib f patch h fs =
        (None, fs\<lparr>dirs := insert (filepath_Dir lib (path f)) (dirs fs),
                   files := (files fs)(path f \<mapsto> out)\<rparr>))"
  by (simp add: PatchConfig_def getConfigLocked_def os_ReadFile_def parseRawJSON_def
      ensureDir_def os_MkdirAll_def os_WriteFile_def)

theorem patchConfig_ignores_baseHash_witness:
  "PatchConfig example_lib example_file [(''b'', VNumber 2)] ''stale''
      (example_fs (Some ''{\"a\":1}''))
     = (None, (example_fs (Some ''{\"a\":1}''))
          \<lparr>dirs := insert (filepath_Dir example_lib (path example_file))
                     (dirs (example_fs (Some ''{\"a\":1}''))),
           files := (files (example_fs (Some ''{\"a\":1}'')))
                      (path example_file \<mapsto> ''{\"a\":1,\"b\":2}'')\<rparr>)
   \<and> PatchConfig example_lib example_file [(''b'', VNumber 2)] ''stale''
        (example_fs (Some ''{\"a\":1}''))
     = PatchConfig example_lib example_file [(''b'', VNumber 2)] ''fresh''
        (example_fs (Some ''{\"a\":1}''))"
proof -
  have h1: "files (example_fs (Some ''{\"a\":1}'')) (path example_file) = Some ''{\"a\":1}''"
    by (simp add: example_fs_def example_file_def)
  have h2: "read_fault (example_fs (Some ''{\"a\":1}'')) (path example_file) = None"
    by (simp add: example_fs_def)
  have h3: "json_Unmarshal example_lib ''{\"a\":1}'' = Inr (Some [(''a'', VNumber 1)])"
    by (simp add: example_lib_def)
  have h4: "json_MarshalIndent example_lib
      (mergePatch (Some [(''a'', VNumber 1)]) [(''b'', VNumber 2)]) = Inr ''{\"a\":1,\"b\":2}''"
    by (simp add: example_merge example_lib_def)
  have h5: "mkdir_fault (example_fs (Some ''{\"a\":1}''))
      (filepath_Dir example_lib (path example_file)) = None"
    by (simp add: example_fs_def)
  have h6: "write_fault (example_fs (Some ''{\"a\":1}'')) (path example_file) = None"
    by (simp add: example_fs_def)
  note T = patchConfig_ignores_baseHash[of example_lib example_file "[(''b'', VNumber 2)]"
      "''stale''" "example_fs (Some ''{\"a\":1}'')" "''fresh''" "''{\"a\":1}''"
      "[(''a'', VNumber 1)]" "''{\"a\":1,\"b\":2}''"]
  from T h1 h2 h3 h4 h5 h6 show ?thesis by blast
qed

text \<open>
  C10. When \<open>PatchConfig\<close> fails because the current content does not parse, or because
  the merged document does not serialise, it returns that error and the file system is
  exactly as before. A call that changes the file system has read, parsed, merged and
  serialised with success.
\<close>

theorem patchConfig_failure_leaves_file:
  "(getConfigLocked lib f fs = Inr cfg \<and> parseRawJSON lib (Raw cfg) = Inl perr \<longrightarrow>
      PatchConfig lib f patch h fs
        = (Some (Errorf ''parsing existing config: %w'' [ArgW perr]), fs)) \<and>
   (getConfigLocked lib f fs = Inr cfg \<and> parseRawJSON lib (Raw cfg) = Inr existing \<and>
    json_MarshalIndent lib (mergePatch existing patch) = Inl merr \<longrightarrow>
      PatchConfig lib f patch h fs
        = (Some (Errorf ''marshaling config: %w'' [ArgW (LibError merr)]), fs)) \<and>
   (snd (PatchConfig lib f patch h fs) \<noteq> fs \<longrightarrow>
      (\<exists>cfg existing out. getConfigLocked lib f fs = Inr cfg \<and>
          parseRawJSON lib (Raw cfg) = Inr existing \<and>
          json_MarshalIndent lib (mergePatch existing patch) = Inr out))"
  by (auto simp: PatchConfig_def Let_def split: sum.splits)

theorem patchConfig_failure_leaves_file_witness:
  "PatchConfig example_lib example_file [(''b'', VNumber 2)] ''h'' (example_fs (Some ''{broken''))
     = (Some (Errorf ''parsing existing config: %w''
               [ArgW (Errorf ''json unmarshal: %w'' [ArgW (LibError ''invalid character'')])]),
        example_fs (Some ''{broken''))
   \<and> PatchConfig example_lib example_file [(''c'', VNumber 3)] ''h''
        (example_fs (Some ''{\"a\":1}''))
     = (Some (Errorf ''marshaling config: %w'' [ArgW (LibError ''unsupported value'')]),
        example_fs (Some ''{\"a\":1}''))"
proof -
  have g1: "getConfigLocked example_lib example_file (example_fs (Some ''{broken''))
      = Inr \<lparr>Raw = ''{broken'', Hash = ''{broken'', Parsed = None\<rparr>"
    by (simp add: getConfigLocked_def os_ReadFile_def example_fs_def example_file_def
        hashBytes_def example_lib_def)
  have p1: "parseRawJSON example_lib ''{broken''
      = Inl (Errorf ''json unmarshal: %w'' [ArgW (LibError ''invalid character'')])"
    by (simp add: parseRawJSON_def example_lib_def)
  have g2: "getConfigLocked example_lib example_file (example_fs (Some ''{\"a\":1}''))
      = Inr \<lparr>Raw = ''{\"a\":1}'', Hash = ''{\"a\":1}'', Parsed = None\<rparr>"
    by (simp add: getConfigLocked_def os_ReadFile_def example_fs_def example_file_def
        hashBytes_def example_lib_def)
  have p2: "parseRawJSON example_lib ''{\"a\":1}'' = Inr (Some [(''a'', VNumber 1)])"
    by (simp add: parseRawJSON_def example_lib_def)
  have m2: "mergePatch (Some [(''a'', VNumber (1::int))]) [(''c'', VNumber 3)]
     = [(''a'', VNumber 1), (''c'', VNumber 3)]"
    by code_simp
  have j2: "json_MarshalIndent example_lib
      (mergePatch (Some [(''a'', VNumber (1::int))]) [(''c'', VNumber 3)])
      = Inl ''unsupported value''"
    by (simp add: m2 example_lib_def)
  note T1 = patchConfig_failure_leaves_file[where lib = example_lib and f = example_file
      and fs = "example_fs (Some ''{broken'')" and patch = "[(''b'', VNumber 2)]" and h = "''h''"
      and cfg = "\<lparr>Raw = ''{broken'', Hash = ''{broken'', Parsed = None\<rparr>"
      and perr = "Errorf ''json unmarshal: %w'' [ArgW (LibError ''invalid character'')]"]
  note T2 = patchConfig_failure_leaves_file[where lib = example_lib and f = example_file
      and fs = "example_fs (Some ''{\"a\":1}'')" and patch = "[(''c'', VNumber 3)]"
      and h = "''h''"
      and cfg = "\<lparr>Raw = ''{\"a\":1}'', Hash = ''{\"a\":1}'', Parsed = None\<rparr>"
      and existing = "Some [(''a'', VNumber 1)]" and merr = "''unsupported value''"]
  have r1: "PatchConfig example_lib example_file [(''b'', VNumber 2)] ''h''
      (example_fs (Some ''{broken''))
     = (Some (Errorf ''parsing existing config: %w''
               [ArgW (Errorf ''json unmarshal: %w'' [ArgW (LibError ''invalid character'')])]),
        example_fs (Some ''{broken''))"
    using T1 g1 p1 by simp
  have r2: "PatchConfig example_lib example_file [(''c'', VNumber 3)] ''h''
        (example_fs (Some ''{\"a\":1}''))
     = (Some (Errorf ''marshaling config: %w'' [ArgW (LibError ''unsupported value'')]),
        example_fs (Some ''{\"a\":1}''))"
    using T2 g2 p2 j2 by simp
  from r1 r2 show ?thesis by blast
qed

subsection \<open>Health\<close>

text \<open>
  C8. \<open>Health\<close> of the document transport fails, whatever the client and whatever the
  state of the file: it never returns a payload, and its error is one fixed value, the
  message \<open>health check not available in file mode (no running gateway)\<close> with no
  wrapped cause, which none of the transport's other operations returns in any state.
\<close>

theorem health_always_unsupported:
  "Health f = Inl health_unsupported \<and>
   (\<forall>payload. Health f \<noteq> Inr payload) \<and>
   (\<forall>lib fs. GetConfig lib f fs \<noteq> Inl health_unsupported) \<and>
   (\<forall>lib patch h fs. fst (PatchConfig lib f patch h fs) \<noteq> Some health_unsupported) \<and>
   (\<forall>lib raw h fs. fst (ApplyConfig lib f raw h fs) \<noteq> Some health_unsupported)"
  by (auto simp: Health_def health_unsupported_def GetConfig_def getConfigLocked_def PatchConfig_def
      ApplyConfig_def ensureDir_def os_MkdirAll_def os_WriteFile_def Let_def
      split: sum.splits option.splits prod.splits if_splits)

section \<open>Section helpers\<close>

text \<open>Indexing a map that may be nil: \<open>val, ok := current[key]\<close>.\<close>

definition map_index :: "'n gomap option \<Rightarrow> string \<Rightarrow> 'n anyval option" where
  "map_index m key = (case m of None \<Rightarrow> None | Some entries \<Rightarrow> map_of entries key)"

text \<open>
  \<open>GetSection\<close> and \<open>GetNestedSection\<close> (client.go) work on any \<open>Client\<close>; their
  argument here is what the one call \<open>c.GetConfig(ctx)\<close> returned. The result is the
  triple of the source: the section (nil when there is none), the hash, the error.
\<close>

definition GetSection ::
  "'n stdlib \<Rightarrow> goerr + 'n ConfigPayload \<Rightarrow> string \<Rightarrow> 'n gomap option \<times> string \<times> goerr option" where
  "GetSection lib getConfig key =
     (case getConfig of
        Inl err \<Rightarrow> (None, '''', Some (Errorf ''reading config: %w'' [ArgW err]))
      | Inr cfg \<Rightarrow>
         (case parseRawJSON lib (Raw cfg) of
            Inl err \<Rightarrow> (None, Hash cfg, Some (Errorf ''parsing config JSON: %w'' [ArgW err]))
          | Inr parsed \<Rightarrow>
             (case map_index parsed key of
                None \<Rightarrow> (None, Hash cfg, None)
              | Some section \<Rightarrow>
                 (case section of
                    VMap m \<Rightarrow> (Some m, Hash cfg, None)
                  | _ \<Rightarrow> (None, Hash cfg,
                           Some (Errorf ''config key %q is not an object'' [ArgQ key]))))))"

text \<open>The loop \<open>for i, key := range keys\<close> of \<open>GetNestedSection\<close>, from index \<open>i\<close> on.\<close>

function nested_loop ::
  "string \<Rightarrow> string list \<Rightarrow> nat \<Rightarrow> 'n gomap option \<Rightarrow> 'n gomap option \<times> string \<times> goerr option" where
  "nested_loop hash keys i current =
     (if i < length keys then
        (case map_index current (keys ! i) of
           None \<Rightarrow> (None, hash, None)
         | Some val \<Rightarrow>
            (case val of
               VMap m \<Rightarrow> nested_loop hash keys (i + 1) (Some m)
             | _ \<Rightarrow> (None, hash,
                      Some (Errorf ''config path %v at index %d is not an object''
                              [ArgV (take (i + 1) keys), ArgD (int i)]))))
      else (current, hash, None))"
  by pat_completeness auto
termination
  by (relation "measure (\<lambda>(hash, keys, i, current). length keys - i)") auto

declare nested_loop.simps [simp del]

definition GetNestedSection ::
  "'n stdlib \<Rightarrow> goerr + 'n ConfigPayload \<Rightarrow> string list \<Rightarrow> 'n gomap option \<times> string \<times> goerr option" where
  "GetNestedSection lib getConfig keys =
     (case getConfig of
        Inl err \<Rightarrow> (None, '''', Some (Errorf ''reading config: %w'' [ArgW err]))
      | Inr cfg \<Rightarrow>
         (case parseRawJSON lib (Raw cfg) of
            Inl err \<Rightarrow> (None, Hash cfg, Some (Errorf ''parsing config JSON: %w'' [ArgW err]))
          | Inr parsed \<Rightarrow> nested_loop (Hash cfg) keys 0 parsed))"

text \<open>
  What the path means in the document: \<open>descends m keys m'\<close> when every segment of
  \<open>keys\<close>, looked up from \<open>m\<close> downwards, exists and is a map, and \<open>m'\<close> is the map
  the last segment names.
\<close>

inductive descends :: "'n gomap option \<Rightarrow> string list \<Rightarrow> 'n gomap option \<Rightarrow> bool" where
  here: "descends m [] m"
| down: "map_index m key = Some (VMap sub) \<Longrightarrow> descends (Some sub) keys m' \<Longrightarrow>
         descends m (key # keys) m'"

lemma descends_append:
  "descends m pre m' \<Longrightarrow> descends m' post m'' \<Longrightarrow> descends m (pre @ post) m''"
  by (induction rule: descends.induct) (auto intro: descends.intros)

lemma descends_snoc:
  "descends m pre m' \<Longrightarrow> map_index m' key = Some (VMap sub) \<Longrightarrow>
     descends m (pre @ [key]) (Some sub)"
  by (rule descends_append) (auto intro: descends.intros)

lemma nested_loop_from:
  "i \<le> length keys \<Longrightarrow>
   nested_loop hash keys i current =
     (case drop i keys of
        [] \<Rightarrow> (current, hash, None)
      | key # rest \<Rightarrow>
         (case map_index current key of
            None \<Rightarrow> (None, hash, None)
          | Some val \<Rightarrow>
             (case val of
                VMap m \<Rightarrow> nested_loop hash keys (i + 1) (Some m)
              | _ \<Rightarrow> (None, hash,
                      Some (Errorf ''config path %v at index %d is not an object''
                              [ArgV (take (i + 1) keys), ArgD (int i)])))))"
  by (subst nested_loop.simps) (auto simp: Cons_nth_drop_Suc[symmetric] split: list.splits)

lemma nested_loop_found:
  "descends current post m \<Longrightarrow> keys = pre @ post \<Longrightarrow>
     nested_loop hash keys (length pre) current = (m, hash, None)"
proof (induction arbitrary: pre rule: descends.induct)
  case (here m)
  then show ?case by (simp add: nested_loop_from)
next
  case (down m key sub ks m')
  from down.prems have "keys = (pre @ [key]) @ ks" by simp
  from down.IH[OF this] down.hyps(1) down.prems show ?case
    by (simp add: nested_loop_from)
qed

lemma nested_loop_prefix:
  "descends current mid m \<Longrightarrow> keys = pre @ mid @ post \<Longrightarrow>
     nested_loop hash keys (length pre) current = nested_loop hash keys (length pre + length mid) m"
proof (induction arbitrary: pre rule: descends.induct)
  case (here m)
  then show ?case by simp
next
  case (down m key sub ks m')
  from down.prems have "keys = (pre @ [key]) @ ks @ post" by simp
  from down.IH[OF this] down.hyps(1) down.prems show ?case
    by (simp add: nested_loop_from)
qed

lemma descends_or_stops:
  "(\<exists>m. descends cur keys m) \<or>
   (\<exists>pre key post m. keys = pre @ key # post \<and> descends cur pre m \<and>
      (map_index m key = None \<or> (\<exists>v. map_index m key = Some v \<and> \<not> is_map v)))"
proof (induction keys arbitrary: cur)
  case Nil
  show ?case by (auto intro: descends.intros)
next
  case (Cons key ks)
  show ?case
  proof (cases "map_index cur key")
    case None
    have "key # ks = [] @ key # ks \<and> descends cur [] cur \<and> map_index cur key = None"
      using None by (simp add: descends.here)
    then show ?thesis by blast
  next
    case (Some v)
    show ?thesis
    proof (cases "is_map v")
      case False
      have "key # ks = [] @ key # ks \<and> descends cur [] cur \<and>
          map_index cur key = Some v \<and> \<not> is_map v"
        using Some False by (simp add: descends.here)
      then show ?thesis by blast
    next
      case True
      then obtain sub where v: "v = VMap sub" by (cases v) (simp_all add: is_map_def)
      from Cons.IH[of "Some sub"] show ?thesis
      proof
        assume "\<exists>m. descends (Some sub) ks m"
        then obtain m where "descends (Some sub) ks m" by blast
        with Some v have "descends cur (key # ks) m" by (auto intro: descends.down)
        then show ?thesis by blast
      next
        assume "\<exists>pre k post m. ks = pre @ k # post \<and> descends (Some sub) pre m \<and>
          (map_index m k = None \<or> (\<exists>v. map_index m k = Some v \<and> \<not> is_map v))"
        then obtain pre k post m where st: "ks = pre @ k # post" "descends (Some sub) pre m"
          "map_index m k = None \<or> (\<exists>v. map_index m k = Some v \<and> \<not> is_map v)" by blast
        from st(2) Some v have "descends cur (key # pre) m" by (auto intro: descends.down)
        moreover from st(1) have "key # ks = (key # pre) @ k # post" by simp
        ultimately show ?thesis using st(3) by blast
      qed
    qed
  qed
qed

lemma nested_loop_absent:
  assumes "keys = pre @ key # post" "descends parsed pre m" "map_index m key = None"
  shows "nested_loop hash keys 0 parsed = (None, hash, None)"
proof -
  have "nested_loop hash keys 0 parsed = nested_loop hash keys (length pre) m"
    using nested_loop_prefix[OF assms(2), of keys "[]" "key # post" hash] assms(1) by simp
  also have "\<dots> = (None, hash, None)"
    using assms(1,3) by (simp add: nested_loop_from)
  finally show ?thesis .
qed

lemma nested_loop_not_object:
  assumes "keys = pre @ key # post" "descends parsed pre m" "map_index m key = Some v"
    "\<not> is_map v"
  shows "nested_loop hash keys 0 parsed =
     (None, hash, Some (Errorf ''config path %v at index %d is not an object''
                   [ArgV (pre @ [key]), ArgD (int (length pre))]))"
proof -
  have "nested_loop hash keys 0 parsed = nested_loop hash keys (length pre) m"
    using nested_loop_prefix[OF assms(2), of keys "[]" "key # post" hash] assms(1) by simp
  also have "\<dots> = (None, hash, Some (Errorf ''config path %v at index %d is not an object''
                   [ArgV (pre @ [key]), ArgD (int (length pre))]))"
    using assms(1,3,4) by (cases v) (simp_all add: nested_loop_from is_map_def)
  finally show ?thesis .
qed

text \<open>
  C9. For every parsed document and every key path, \<open>GetNestedSection\<close> returns the
  sub-map (and no error) when every segment exists and is a map; nil and no error when,
  below segments that are maps, a segment is absent; and the type error naming the path
  up to that segment and its index when the segment exists but is not a map. One of
  the three is always the case.
\<close>

theorem getNestedSection_cases:
  "getConfig = Inr cfg \<Longrightarrow> parseRawJSON lib (Raw cfg) = Inr parsed \<Longrightarrow>
    (\<forall>m. descends parsed keys m \<longrightarrow>
        GetNestedSection lib getConfig keys = (m, Hash cfg, None)) \<and>
    (\<forall>pre key post m. keys = pre @ key # post \<and> descends parsed pre m \<and>
        map_index m key = None \<longrightarrow>
        GetNestedSection lib getConfig keys = (None, Hash cfg, None)) \<and>
    (\<forall>pre key post m v. keys = pre @ key # post \<and> descends parsed pre m \<and>
        map_index m key = Some v \<and> \<not> is_map v \<longrightarrow>
        GetNestedSection lib getConfig keys =
          (None, Hash cfg,
           Some (Errorf ''config path %v at index %d is not an object''
                   [ArgV (pre @ [key]), ArgD (int (length pre))]))) \<and>
    ((\<exists>m. descends parsed keys m) \<or>
     (\<exists>pre key post m. keys = pre @ key # post \<and> descends parsed pre m \<and>
        (map_index m key = None \<or> (\<exists>v. map_index m key = Some v \<and> \<not> is_map v))))"
proof -
  assume g: "getConfig = Inr cfg" and p: "parseRawJSON lib (Raw cfg) = Inr parsed"
  have run: "GetNestedSection lib getConfig keys = nested_loop (Hash cfg) keys 0 parsed"
    using g p by (simp add: GetNestedSection_def)
  have found: "\<forall>m. descends parsed keys m \<longrightarrow>
        GetNestedSection lib getConfig keys = (m, Hash cfg, None)"
    unfolding run using nested_loop_found[of parsed keys _ keys "[]" "Hash cfg"] by simp
  have absent: "\<forall>pre key post m. keys = pre @ key # post \<and> descends parsed pre m \<and>
        map_index m key = None \<longrightarrow>
        GetNestedSection lib getConfig keys = (None, Hash cfg, None)"
    unfolding run using nested_loop_absent[of keys _ _ _ parsed _ "Hash cfg"] by blast
  have wrong: "\<forall>pre key post m v. keys = pre @ key # post \<and> descends parsed pre m \<and>
        map_index m key = Some v \<and> \<not> is_map v \<longrightarrow>
        GetNestedSection lib getConfig keys =
          (None, Hash cfg,
           Some (Errorf ''config path %v at index %d is not an object''
                   [ArgV (pre @ [key]), ArgD (int (length pre))]))"
    unfolding run using nested_loop_not_object[of keys _ _ _ parsed _ _ "Hash cfg"] by blast
  from found absent wrong descends_or_stops[of parsed keys] show ?thesis by blast
qed

theorem getNestedSection_cases_witness:
  "GetNestedSection example_lib
      (GetConfig example_lib example_file
         (example_fs (Some ''{\"channels\":{\"whatsapp\":{\"dmPolicy\":\"pairing\"}}}'')))
      [''channels'', ''whatsapp'']
     = (Some [(''dmPolicy'', VString ''pairing'')],
        ''{\"channels\":{\"whatsapp\":{\"dmPolicy\":\"pairing\"}}}'', None)
   \<and> GetNestedSection example_lib
      (GetConfig example_lib example_file
         (example_fs (Some ''{\"channels\":{\"whatsapp\":{\"dmPolicy\":\"pairing\"}}}'')))
      [''channels'', ''telegram'']
     = (None, ''{\"channels\":{\"whatsapp\":{\"dmPolicy\":\"pairing\"}}}'', None)
   \<and> GetNestedSection example_lib
      (GetConfig example_lib example_file
         (example_fs (Some ''{\"channels\":{\"whatsapp\":{\"dmPolicy\":\"pairing\"}}}'')))
      [''channels'', ''whatsapp'', ''dmPolicy'']
     = (None, ''{\"channels\":{\"whatsapp\":{\"dmPolicy\":\"pairing\"}}}'',
        Some (Errorf ''config path %v at index %d is not an object''
                [ArgV [''channels'', ''whatsapp'', ''dmPolicy''], ArgD 2]))"
proof -
  define raw where "raw = ''{\"channels\":{\"whatsapp\":{\"dmPolicy\":\"pairing\"}}}''"
  define wa :: "int gomap" where "wa = [(''dmPolicy'', VString ''pairing'')]"
  define ch :: "int gomap" where "ch = [(''whatsapp'', VMap wa)]"
  define doc :: "int gomap" where "doc = [(''channels'', VMap ch)]"
  define cfg :: "int ConfigPayload" where "cfg = \<lparr>Raw = raw, Hash = raw, Parsed = None\<rparr>"
  have g: "GetConfig example_lib example_file (example_fs (Some raw)) = Inr cfg"
    by (simp add: GetConfig_def getConfigLocked_def os_ReadFile_def example_fs_def
        example_file_def hashBytes_def example_lib_def cfg_def)
  have p: "parseRawJSON example_lib (Raw cfg) = Inr (Some doc)"
    by (simp add: parseRawJSON_def example_lib_def cfg_def raw_def doc_def ch_def wa_def)
  note T = getNestedSection_cases[OF g p]
  have s1: "map_index (Some doc) ''channels'' = Some (VMap ch)"
    by (simp add: map_index_def doc_def)
  have s2: "map_index (Some ch) ''whatsapp'' = Some (VMap wa)"
    by (simp add: map_index_def ch_def)
  have d1: "descends (Some doc) [''channels''] (Some ch)"
    using s1 by (rule descends.down) (rule descends.here)
  have d2: "descends (Some doc) [''channels'', ''whatsapp''] (Some wa)"
    using s1 by (rule descends.down) (rule descends.down[OF s2 descends.here])
  have r1: "GetNestedSection example_lib
      (GetConfig example_lib example_file (example_fs (Some raw))) [''channels'', ''whatsapp'']
     = (Some wa, raw, None)"
    using T[of "[''channels'', ''whatsapp'']"] d2 by (simp add: cfg_def)
  have a2: "map_index (Some ch) ''telegram'' = None"
    by (simp add: map_index_def ch_def)
  have r2: "GetNestedSection example_lib
      (GetConfig example_lib example_file (example_fs (Some raw))) [''channels'', ''telegram'']
     = (None, raw, None)"
    using T[of "[''channels'', ''telegram'']"] d1 a2
    by (simp add: cfg_def) (metis append_Cons append_Nil)
  have a3: "map_index (Some wa) ''dmPolicy'' = Some (VString ''pairing'')"
    "\<not> is_map (VString ''pairing'' :: int anyval)"
    by (simp_all add: map_index_def wa_def is_map_def)
  have r3: "GetNestedSection example_lib
      (GetConfig example_lib example_file (example_fs (Some raw)))
      [''channels'', ''whatsapp'', ''dmPolicy'']
     = (None, raw, Some (Errorf ''config path %v at index %d is not an object''
                [ArgV [''channels'', ''whatsapp'', ''dmPolicy''], ArgD 2]))"
  proof -
    have split: "[''channels'', ''whatsapp'', ''dmPolicy'']
        = [''channels'', ''whatsapp''] @ ''dmPolicy'' # []" by simp
    from T[of "[''channels'', ''whatsapp'', ''dmPolicy'']"]
    have "\<forall>pre key post m v.
        [''channels'', ''whatsapp'', ''dmPolicy''] = pre @ key # post \<and>
        descends (Some doc) pre m \<and> map_index m key = Some v \<and> \<not> is_map v \<longrightarrow>
        GetNestedSection example_lib
          (GetConfig example_lib example_file (example_fs (Some raw)))
          [''channels'', ''whatsapp'', ''dmPolicy''] =
          (None, Hash cfg,
           Some (Errorf ''config path %v at index %d is not an object''
                   [ArgV (pre @ [key]), ArgD (int (length pre))]))"
      by blast
    from this split d2 a3 have "GetNestedSection example_lib
          (GetConfig example_lib example_file (example_fs (Some raw)))
          [''channels'', ''whatsapp'', ''dmPolicy''] =
          (None, Hash cfg,
           Some (Errorf ''config path %v at index %d is not an object''
                   [ArgV ([''channels'', ''whatsapp''] @ [''dmPolicy'']),
                    ArgD (int (length [''channels'', ''whatsapp'']))]))"
      by blast
    then show ?thesis by (simp add: cfg_def)
  qed
  from r1 r2 r3 show ?thesis unfolding raw_def wa_def by blast
qed

text \<open>The one-key helper gives the section and the hash of the one-segment path.\<close>

lemma getSection_as_nested:
  "fst (GetSection lib getConfig key) = fst (GetNestedSection lib getConfig [key]) \<and>
   fst (snd (GetSection lib getConfig key)) = fst (snd (GetNestedSection lib getConfig [key])) \<and>
   (snd (snd (GetSection lib getConfig key)) = None
      \<longleftrightarrow> snd (snd (GetNestedSection lib getConfig [key])) = None)"
  by (auto simp: GetSection_def GetNestedSection_def nested_loop.simps[of _ "[key]"]
      split: sum.splits option.splits anyval.splits)

section \<open>The session transport: establishing the connection\<close>

text \<open>
  \<open>NewWSClient\<close> (ws.go). A \<open>time.Duration\<close> is a count of nanoseconds; the largest
  value the loop computes is 16 seconds, far from the range of \<open>int64\<close>.
\<close>

definition second :: int where
  "second = 1000000000"

definition maxRetries :: nat where
  "maxRetries = 5"

text \<open>
  What the loop cannot decide is given from outside: \<open>dialAndHandshake n\<close> is the
  outcome of the call made in attempt \<open>n\<close>, and \<open>ctx_done n\<close> says which case the
  \<open>select\<close> before attempt \<open>n\<close> takes: \<open>None\<close> when the timer fires, the value of
  \<open>ctx.Err()\<close> when the context is done first. The loop records what it does: the
  dials made and the delays slept in full, in order.
\<close>

datatype event = Dialed nat | Slept int

definition backoff_wait :: "(nat \<Rightarrow> goerr option) \<Rightarrow> nat \<Rightarrow> int \<Rightarrow> goerr + int" where
  "backoff_wait ctx_done attempt backoff =
     (case ctx_done attempt of
        None \<Rightarrow> Inr (let doubled = backoff * 2
                      in if doubled > 10 * second then 10 * second else doubled)
      | Some ctx_err \<Rightarrow> Inl ctx_err)"

function retry_loop ::
  "(nat \<Rightarrow> goerr + 'c) \<Rightarrow> (nat \<Rightarrow> goerr option) \<Rightarrow> nat \<Rightarrow> int \<Rightarrow> goerr option \<Rightarrow> event list
     \<Rightarrow> ('c option \<times> goerr option) \<times> event list" where
  "retry_loop dialAndHandshake ctx_done attempt backoff lastErr trace =
     (if attempt \<le> maxRetries then
        (case (if attempt > 0 then
                 (case backoff_wait ctx_done attempt backoff of
                    Inl ctx_err \<Rightarrow> Inl ctx_err
                  | Inr backoff' \<Rightarrow> Inr (backoff', trace @ [Slept backoff]))
               else Inr (backoff, trace)) of
           Inl ctx_err \<Rightarrow>
             ((None, Some (Errorf ''ws connect cancelled after %d attempts: %w (last error: %v)''
                             [ArgD (int attempt), ArgW ctx_err, ArgE lastErr])), trace)
         | Inr (backoff', trace') \<Rightarrow>
            (case dialAndHandshake attempt of
               Inr c \<Rightarrow> ((Some c, None), trace' @ [Dialed attempt])
             | Inl err \<Rightarrow>
                 retry_loop dialAndHandshake ctx_done (attempt + 1) backoff' (Some err)
                   (trace' @ [Dialed attempt])))
      else ((None, lastErr), trace))"
  by pat_completeness auto
termination
  by (relation "measure (\<lambda>(d, c, attempt, b, l, t). Suc maxRetries - attempt)") auto

declare retry_loop.simps [simp del]

definition NewWSClient ::
  "(nat \<Rightarrow> goerr + 'c) \<Rightarrow> (nat \<Rightarrow> goerr option) \<Rightarrow> ('c option \<times> goerr option) \<times> event list" where
  "NewWSClient dialAndHandshake ctx_done =
     retry_loop dialAndHandshake ctx_done 0 (1 * second) None []"

text \<open>The schedule in the words of the specification.\<close>

definition schedule :: "int list" where
  "schedule = [1 * second, 2 * second, 4 * second, 8 * second, 10 * second]"

text \<open>
  The value of \<open>backoff\<close> on entry to attempt \<open>n\<close>, and the trace of a run whose last
  dial is that of attempt \<open>k\<close>.
\<close>

definition delay_before :: "nat \<Rightarrow> int" where
  "delay_before n = min (10 * second) (2 ^ (n - 1) * second)"

definition attempt_events :: "nat \<Rightarrow> event list" where
  "attempt_events n = (if n > 0 then [Slept (delay_before n)] else []) @ [Dialed n]"

definition attempts_between :: "nat \<Rightarrow> nat \<Rightarrow> event list" where
  "attempts_between a b = concat (map attempt_events [a..<b])"

definition attempts_trace :: "nat \<Rightarrow> event list" where
  "attempts_trace k = attempts_between 0 (Suc k)"

definition dials :: "event list \<Rightarrow> nat" where
  "dials trace = length (filter (\<lambda>e. case e of Dialed n \<Rightarrow> True | Slept d \<Rightarrow> False) trace)"

fun delays :: "event list \<Rightarrow> int list" where
  "delays [] = []"
| "delays (Slept d # es) = d # delays es"
| "delays (Dialed n # es) = delays es"

lemma delay_before_schedule: "map delay_before [1..<6] = schedule"
  by (simp add: delay_before_def schedule_def second_def upt_rec[of _ "numeral _"])

lemma delay_before_next:
  "0 < a \<Longrightarrow>
     (let doubled = delay_before a * 2 in if doubled > 10 * second then 10 * second else doubled)
       = delay_before (Suc a)"
proof -
  assume "0 < a"
  then obtain n where a: "a = Suc n" by (cases a) auto
  have "(0::int) < second" by (simp add: second_def)
  then show ?thesis
    by (auto simp: a delay_before_def Let_def min_def)
qed

lemma delay_before_first: "delay_before 0 = 1 * second" "delay_before (Suc 0) = 1 * second"
  by (simp_all add: delay_before_def second_def)

lemma attempts_between_simps:
  "attempts_between a a = []"
  "a \<le> b \<Longrightarrow> attempts_between a (Suc b) = attempts_between a b @ attempt_events b"
  "a < b \<Longrightarrow> attempts_between a b = attempt_events a @ attempts_between (Suc a) b"
  by (simp_all add: attempts_between_def upt_rec[of a b])

lemma retry_loop_unfold:
  assumes "a \<le> maxRetries"
  shows "retry_loop dial ctx a (delay_before a) l tr =
     (if 0 < a \<and> ctx a \<noteq> None
      then ((None, Some (Errorf ''ws connect cancelled after %d attempts: %w (last error: %v)''
                             [ArgD (int a), ArgW (the (ctx a)), ArgE l])), tr)
      else (case dial a of
              Inr c \<Rightarrow> ((Some c, None), tr @ attempt_events a)
            | Inl err \<Rightarrow> retry_loop dial ctx (Suc a) (delay_before (Suc a)) (Some err) (tr @ attempt_events a)))"
proof (cases "0 < a")
  case True
  with assms show ?thesis
    by (subst retry_loop.simps)
      (auto simp: backoff_wait_def delay_before_next[OF True] attempt_events_def split: option.splits sum.splits)
next
  case False
  with assms show ?thesis
    by (subst retry_loop.simps) (auto simp: attempt_events_def delay_before_first split: sum.splits)
qed

lemma retry_loop_cancel_step:
  "a \<le> maxRetries \<Longrightarrow> 0 < a \<Longrightarrow> ctx a = Some cerr \<Longrightarrow>
     retry_loop dial ctx a (delay_before a) l tr =
       ((None, Some (Errorf ''ws connect cancelled after %d attempts: %w (last error: %v)''
                       [ArgD (int a), ArgW cerr, ArgE l])), tr)"
  by (simp add: retry_loop_unfold)

lemma retry_loop_dial_ok:
  "a \<le> maxRetries \<Longrightarrow> (0 < a \<longrightarrow> ctx a = None) \<Longrightarrow> dial a = Inr c \<Longrightarrow>
     retry_loop dial ctx a (delay_before a) l tr = ((Some c, None), tr @ attempt_events a)"
  by (cases "0 < a") (simp_all add: retry_loop_unfold)

lemma retry_loop_dial_fail:
  "a \<le> maxRetries \<Longrightarrow> (0 < a \<longrightarrow> ctx a = None) \<Longrightarrow> dial a = Inl err \<Longrightarrow>
     retry_loop dial ctx a (delay_before a) l tr =
       retry_loop dial ctx (Suc a) (delay_before (Suc a)) (Some err) (tr @ attempt_events a)"
  by (cases "0 < a") (simp_all add: retry_loop_unfold)

lemma retry_loop_exit:
  "retry_loop dial ctx (Suc maxRetries) b l tr = ((None, l), tr)"
  by (subst retry_loop.simps) simp

lemma retry_loop_trace:
  "a \<le> Suc maxRetries \<Longrightarrow>
     \<exists>b. a \<le> b \<and> b \<le> Suc maxRetries \<and> (a = 0 \<longrightarrow> 0 < b) \<and>
         snd (retry_loop dial ctx a (delay_before a) l tr) = tr @ attempts_between a b"
proof (induction "Suc maxRetries - a" arbitrary: a l tr)
  case 0
  then have "a = Suc maxRetries" by simp
  then show ?case by (intro exI[of _ a]) (simp add: retry_loop_exit attempts_between_simps)
next
  case (Suc n)
  then have a: "a \<le> maxRetries" by simp
  show ?case
  proof (cases "0 < a \<and> ctx a \<noteq> None")
    case True
    then obtain cerr where "ctx a = Some cerr" by auto
    with a True have "snd (retry_loop dial ctx a (delay_before a) l tr) = tr @ attempts_between a a"
      by (simp add: retry_loop_cancel_step attempts_between_simps)
    with a True show ?thesis by (intro exI[of _ a]) simp
  next
    case False
    then have nc: "0 < a \<longrightarrow> ctx a = None" by blast
    show ?thesis
    proof (cases "dial a")
      case (Inr c)
      have "snd (retry_loop dial ctx a (delay_before a) l tr) = tr @ attempts_between a (Suc a)"
        using a nc Inr by (simp add: retry_loop_dial_ok attempts_between_simps)
      with a show ?thesis by (intro exI[of _ "Suc a"]) simp
    next
      case (Inl err)
      from Suc.hyps(2) have "n = Suc maxRetries - Suc a" by simp
      from Suc.hyps(1)[OF this, of "Some err" "tr @ attempt_events a"] a
      obtain b where b: "Suc a \<le> b" "b \<le> Suc maxRetries"
        "snd (retry_loop dial ctx (Suc a) (delay_before (Suc a)) (Some err) (tr @ attempt_events a))
           = (tr @ attempt_events a) @ attempts_between (Suc a) b" by auto
      then have "snd (retry_loop dial ctx a (delay_before a) l tr) = tr @ attempts_between a b"
        using a nc Inl by (simp add: retry_loop_dial_fail attempts_between_simps(3))
      with b show ?thesis by (intro exI[of _ b]) simp
    qed
  qed
qed

lemma newWSClient_trace:
  "\<exists>k\<le>maxRetries. snd (NewWSClient dial ctx) = attempts_trace k"
proof -
  from retry_loop_trace[of 0 dial ctx None "[]"]
  obtain b where "0 < b" "b \<le> Suc maxRetries" "snd (NewWSClient dial ctx) = attempts_between 0 b"
    by (auto simp: NewWSClient_def delay_before_first)
  then show ?thesis
    by (cases b) (auto simp: attempts_trace_def)
qed

lemma retry_loop_success:
  "a \<le> k \<Longrightarrow> k \<le> maxRetries \<Longrightarrow> dial k = Inr c \<Longrightarrow>
   \<forall>j. a \<le> j \<and> j < k \<longrightarrow> (\<exists>e. dial j = Inl e) \<Longrightarrow>
   \<forall>j. 1 \<le> j \<and> a \<le> j \<and> j \<le> k \<longrightarrow> ctx j = None \<Longrightarrow>
     retry_loop dial ctx a (delay_before a) l tr = ((Some c, None), tr @ attempts_between a (Suc k))"
proof (induction "k - a" arbitrary: a l tr)
  case 0
  then have ak: "a = k" by simp
  have nc: "0 < a \<longrightarrow> ctx a = None"
    using "0.prems"(5)[rule_format, of a] ak by simp
  from "0.prems"(2,3) nc show ?case
    unfolding ak[symmetric] by (simp add: retry_loop_dial_ok attempts_between_simps)
next
  case (Suc n)
  then have lt: "a < k" by simp
  with Suc.prems obtain e where e: "dial a = Inl e" by blast
  have nc: "0 < a \<longrightarrow> ctx a = None"
    using lt Suc.prems(5)[rule_format, of a] by simp
  from lt Suc.prems(2) have a: "a \<le> maxRetries" by simp
  from Suc.hyps(2) have "n = k - Suc a" by simp
  from Suc.hyps(1)[OF this, of "Some e" "tr @ attempt_events a"] Suc.prems lt
  have "retry_loop dial ctx (Suc a) (delay_before (Suc a)) (Some e) (tr @ attempt_events a)
          = ((Some c, None), (tr @ attempt_events a) @ attempts_between (Suc a) (Suc k))" by auto
  with lt a nc e show ?case
    by (simp add: retry_loop_dial_fail attempts_between_simps(3))
qed

lemma retry_loop_cancelled:
  "a \<le> k \<Longrightarrow> k \<le> maxRetries \<Longrightarrow> 0 < k \<Longrightarrow> ctx k = Some cerr \<Longrightarrow>
   \<forall>j. a \<le> j \<and> j < k \<longrightarrow> dial j = Inl (derr j) \<Longrightarrow>
   \<forall>j. 1 \<le> j \<and> a \<le> j \<and> j < k \<longrightarrow> ctx j = None \<Longrightarrow>
     retry_loop dial ctx a (delay_before a) l tr =
       ((None, Some (Errorf ''ws connect cancelled after %d attempts: %w (last error: %v)''
                 [ArgD (int k), ArgW cerr, ArgE (if a = k then l else Some (derr (k - 1)))])),
        tr @ attempts_between a k)"
proof (induction "k - a" arbitrary: a l tr)
  case 0
  then have ak: "a = k" by simp
  from "0.prems"(2,3,4) show ?case
    unfolding ak by (simp add: retry_loop_cancel_step attempts_between_simps)
next
  case (Suc n)
  then have lt: "a < k" by simp
  with Suc.prems have e: "dial a = Inl (derr a)" by blast
  have nc: "0 < a \<longrightarrow> ctx a = None"
    using lt Suc.prems(6)[rule_format, of a] by simp
  from lt Suc.prems(2) have a: "a \<le> maxRetries" by simp
  from Suc.hyps(2) have "n = k - Suc a" by simp
  from Suc.hyps(1)[OF this, of "Some (derr a)" "tr @ attempt_events a"] Suc.prems lt
  have "retry_loop dial ctx (Suc a) (delay_before (Suc a)) (Some (derr a)) (tr @ attempt_events a)
          = ((None, Some (Errorf ''ws connect cancelled after %d attempts: %w (last error: %v)''
                 [ArgD (int k), ArgW cerr,
                  ArgE (if Suc a = k then Some (derr a) else Some (derr (k - 1)))])),
             (tr @ attempt_events a) @ attempts_between (Suc a) k)" by auto
  moreover have "(if Suc a = k then Some (derr a) else Some (derr (k - 1))) = Some (derr (k - 1))"
    by auto
  ultimately show ?case using lt a nc e
    by (simp add: retry_loop_dial_fail attempts_between_simps(3))
qed

lemma retry_loop_exhausted:
  "a \<le> Suc maxRetries \<Longrightarrow>
   \<forall>j. a \<le> j \<and> j \<le> maxRetries \<longrightarrow> dial j = Inl (derr j) \<Longrightarrow>
   \<forall>j. 1 \<le> j \<and> a \<le> j \<and> j \<le> maxRetries \<longrightarrow> ctx j = None \<Longrightarrow>
     retry_loop dial ctx a (delay_before a) l tr =
       ((None, if a = Suc maxRetries then l else Some (derr maxRetries)),
        tr @ attempts_between a (Suc maxRetries))"
proof (induction "Suc maxRetries - a" arbitrary: a l tr)
  case 0
  then have "a = Suc maxRetries" by simp
  then show ?case by (simp add: retry_loop_exit attempts_between_simps)
next
  case (Suc n)
  then have a: "a \<le> maxRetries" by simp
  with Suc.prems have e: "dial a = Inl (derr a)" by blast
  have nc: "0 < a \<longrightarrow> ctx a = None"
    using a Suc.prems(3)[rule_format, of a] by simp
  from Suc.hyps(2) have "n = Suc maxRetries - Suc a" by simp
  from Suc.hyps(1)[OF this, of "Some (derr a)" "tr @ attempt_events a"] Suc.prems a
  have "retry_loop dial ctx (Suc a) (delay_before (Suc a)) (Some (derr a)) (tr @ attempt_events a)
          = ((None, if Suc a = Suc maxRetries then Some (derr a) else Some (derr maxRetries)),
             (tr @ attempt_events a) @ attempts_between (Suc a) (Suc maxRetries))" by auto
  moreover have "(if Suc a = Suc maxRetries then Some (derr a) else Some (derr maxRetries))
      = Some (derr maxRetries)" by auto
  ultimately show ?case using a nc e
    by (simp add: retry_loop_dial_fail attempts_between_simps(3))
qed

lemma dials_append: "dials (xs @ ys) = dials xs + dials ys"
  by (simp add: dials_def)

lemma delays_append: "delays (xs @ ys) = delays xs @ delays ys"
  by (induction xs rule: delays.induct) simp_all

lemma dials_steps: "a \<le> b \<Longrightarrow> dials (attempts_between a b) = b - a"
proof (induction b)
  case 0
  then show ?case by (simp add: attempts_between_simps dials_def)
next
  case (Suc b)
  show ?case
  proof (cases "a = Suc b")
    case True
    then show ?thesis by (simp add: attempts_between_simps dials_def)
  next
    case False
    with Suc.prems have ab: "a \<le> b" by simp
    have "dials (attempt_events b) = 1" by (simp add: attempt_events_def dials_def)
    with Suc.IH[OF ab] ab show ?thesis
      by (simp add: attempts_between_simps(2) dials_append)
  qed
qed

lemma delays_steps: "delays (attempts_between 0 (Suc k)) = map delay_before [1..<Suc k]"
proof (induction k)
  case 0
  show ?case by (simp add: attempts_between_def attempt_events_def)
next
  case (Suc k)
  have "delays (attempt_events (Suc k)) = [delay_before (Suc k)]" by (simp add: attempt_events_def)
  with Suc show ?case
    by (simp add: attempts_between_simps(2)[of 0 "Suc k"] delays_append)
qed

lemma delays_prefix_schedule:
  assumes "k \<le> maxRetries"
  shows "prefix (delays (attempts_trace k)) schedule"
proof -
  from assms have "[1..<Suc k] = take k [1..<6]"
    by (simp add: maxRetries_def take_upt)
  then have "map delay_before [1..<Suc k] = take k schedule"
    by (simp add: take_map flip: delay_before_schedule)
  then show ?thesis
    by (simp add: attempts_trace_def delays_steps take_is_prefix)
qed

lemma attempts_trace_all:
  "attempts_trace maxRetries =
     [Dialed 0, Slept (1 * second), Dialed 1, Slept (2 * second), Dialed 2,
      Slept (4 * second), Dialed 3, Slept (8 * second), Dialed 4,
      Slept (10 * second), Dialed 5]"
  by (simp add: attempts_trace_def attempts_between_def attempt_events_def delay_before_def maxRetries_def second_def
      upt_rec[of _ "numeral _"] upt_rec[of _ "Suc _"])

text \<open>
  C5. \<open>NewWSClient\<close> dials at most 6 times, the first time at once and each later time
  after the delays 1s, 2s, 4s, 8s, 10s in this order; a dial and handshake that succeeds
  is the last; and when the context is done first during a wait, the loop ends there
  with an error and no further dial. When all six fail the last error is returned.
\<close>

theorem newWSClient_retries:
  "(\<exists>k\<le>maxRetries. snd (NewWSClient dial ctx) = attempts_trace k) \<and>
   attempts_trace maxRetries =
     [Dialed 0, Slept (1 * second), Dialed 1, Slept (2 * second), Dialed 2,
      Slept (4 * second), Dialed 3, Slept (8 * second), Dialed 4,
      Slept (10 * second), Dialed 5] \<and>
   dials (snd (NewWSClient dial ctx)) \<le> 6 \<and>
   prefix (delays (snd (NewWSClient dial ctx)))
     [1 * second, 2 * second, 4 * second, 8 * second, 10 * second] \<and>
   (\<forall>k c. k \<le> maxRetries \<and> dial k = Inr c \<and> (\<forall>j<k. \<exists>e. dial j = Inl e) \<and>
          (\<forall>j. 1 \<le> j \<and> j \<le> k \<longrightarrow> ctx j = None) \<longrightarrow>
      NewWSClient dial ctx = ((Some c, None), attempts_trace k)) \<and>
   (\<forall>k cerr derr. 0 < k \<and> k \<le> maxRetries \<and> ctx k = Some cerr \<and>
          (\<forall>j<k. dial j = Inl (derr j)) \<and> (\<forall>j. 1 \<le> j \<and> j < k \<longrightarrow> ctx j = None) \<longrightarrow>
      NewWSClient dial ctx =
        ((None, Some (Errorf ''ws connect cancelled after %d attempts: %w (last error: %v)''
                        [ArgD (int k), ArgW cerr, ArgE (Some (derr (k - 1)))])),
         attempts_trace (k - 1))) \<and>
   (\<forall>derr. (\<forall>j\<le>maxRetries. dial j = Inl (derr j)) \<and>
          (\<forall>j. 1 \<le> j \<and> j \<le> maxRetries \<longrightarrow> ctx j = None) \<longrightarrow>
      NewWSClient dial ctx = ((None, Some (derr maxRetries)), attempts_trace maxRetries))"
proof -
  obtain k where k: "k \<le> maxRetries" "snd (NewWSClient dial ctx) = attempts_trace k"
    using newWSClient_trace[of dial ctx] by blast
  have shape: "\<exists>k\<le>maxRetries. snd (NewWSClient dial ctx) = attempts_trace k"
    using k by blast
  have count: "dials (snd (NewWSClient dial ctx)) \<le> 6"
    using k by (simp add: attempts_trace_def dials_steps maxRetries_def)
  have sched: "prefix (delays (snd (NewWSClient dial ctx)))
      [1 * second, 2 * second, 4 * second, 8 * second, 10 * second]"
    using delays_prefix_schedule[OF k(1)] k(2) by (simp add: schedule_def)
  have ok: "\<forall>k c. k \<le> maxRetries \<and> dial k = Inr c \<and> (\<forall>j<k. \<exists>e. dial j = Inl e) \<and>
          (\<forall>j. 1 \<le> j \<and> j \<le> k \<longrightarrow> ctx j = None) \<longrightarrow>
      NewWSClient dial ctx = ((Some c, None), attempts_trace k)"
  proof (intro allI impI)
    fix k c
    assume h: "k \<le> maxRetries \<and> dial k = Inr c \<and> (\<forall>j<k. \<exists>e. dial j = Inl e) \<and>
          (\<forall>j. 1 \<le> j \<and> j \<le> k \<longrightarrow> ctx j = None)"
    then have "retry_loop dial ctx 0 (delay_before 0) None [] = ((Some c, None), [] @ attempts_between 0 (Suc k))"
      by (intro retry_loop_success) auto
    then show "NewWSClient dial ctx = ((Some c, None), attempts_trace k)"
      by (simp add: NewWSClient_def attempts_trace_def delay_before_first)
  qed
  have cancel: "\<forall>k cerr derr. 0 < k \<and> k \<le> maxRetries \<and> ctx k = Some cerr \<and>
          (\<forall>j<k. dial j = Inl (derr j)) \<and> (\<forall>j. 1 \<le> j \<and> j < k \<longrightarrow> ctx j = None) \<longrightarrow>
      NewWSClient dial ctx =
        ((None, Some (Errorf ''ws connect cancelled after %d attempts: %w (last error: %v)''
                        [ArgD (int k), ArgW cerr, ArgE (Some (derr (k - 1)))])),
         attempts_trace (k - 1))"
  proof (intro allI impI)
    fix k cerr derr
    assume h: "0 < k \<and> k \<le> maxRetries \<and> ctx k = Some cerr \<and>
          (\<forall>j<k. dial j = Inl (derr j)) \<and> (\<forall>j. 1 \<le> j \<and> j < k \<longrightarrow> ctx j = None)"
    then have "retry_loop dial ctx 0 (delay_before 0) None [] =
       ((None, Some (Errorf ''ws connect cancelled after %d attempts: %w (last error: %v)''
                 [ArgD (int k), ArgW cerr, ArgE (if 0 = k then None else Some (derr (k - 1)))])),
        [] @ attempts_between 0 k)"
      by (intro retry_loop_cancelled) auto
    with h show "NewWSClient dial ctx =
        ((None, Some (Errorf ''ws connect cancelled after %d attempts: %w (last error: %v)''
                        [ArgD (int k), ArgW cerr, ArgE (Some (derr (k - 1)))])),
         attempts_trace (k - 1))"
      by (cases k) (simp_all add: NewWSClient_def attempts_trace_def delay_before_first)
  qed
  have spent: "\<forall>derr. (\<forall>j\<le>maxRetries. dial j = Inl (derr j)) \<and>
          (\<forall>j. 1 \<le> j \<and> j \<le> maxRetries \<longrightarrow> ctx j = None) \<longrightarrow>
      NewWSClient dial ctx = ((None, Some (derr maxRetries)), attempts_trace maxRetries)"
  proof (intro allI impI)
    fix derr
    assume h: "(\<forall>j\<le>maxRetries. dial j = Inl (derr j)) \<and>
          (\<forall>j. 1 \<le> j \<and> j \<le> maxRetries \<longrightarrow> ctx j = None)"
    then have "retry_loop dial ctx 0 (delay_before 0) None [] =
       ((None, if 0 = Suc maxRetries then None else Some (derr maxRetries)),
        [] @ attempts_between 0 (Suc maxRetries))"
      by (intro retry_loop_exhausted) auto
    then show "NewWSClient dial ctx = ((None, Some (derr maxRetries)), attempts_trace maxRetries)"
      by (simp add: NewWSClient_def attempts_trace_def delay_before_first)
  qed
  from shape attempts_trace_all count sched ok cancel spent show ?thesis by blast
qed

theorem newWSClient_retries_witness:
  "NewWSClient (\<lambda>n. if n = 2 then Inr ''conn'' else Inl (LibError ''connection refused''))
      (\<lambda>n. None)
     = ((Some ''conn'', None),
        [Dialed 0, Slept 1000000000, Dialed 1, Slept 2000000000, Dialed 2])
   \<and> NewWSClient (\<lambda>n. Inl (LibError ''connection refused'') :: goerr + string)
      (\<lambda>n. if n = 3 then Some (LibError ''context canceled'') else None)
     = ((None, Some (Errorf ''ws connect cancelled after %d attempts: %w (last error: %v)''
                        [ArgD 3, ArgW (LibError ''context canceled''),
                         ArgE (Some (LibError ''connection refused''))])),
        [Dialed 0, Slept 1000000000, Dialed 1, Slept 2000000000, Dialed 2])"
proof -
  have tr: "attempts_trace 2 = [Dialed 0, Slept 1000000000, Dialed 1, Slept 2000000000, Dialed 2]"
    by (simp add: attempts_trace_def attempts_between_def attempt_events_def delay_before_def second_def
        upt_rec[of _ "numeral _"] upt_rec[of _ "Suc _"])
  define dial1 :: "nat \<Rightarrow> goerr + string"
    where "dial1 = (\<lambda>n. if n = 2 then Inr ''conn'' else Inl (LibError ''connection refused''))"
  define dial2 :: "nat \<Rightarrow> goerr + string"
    where "dial2 = (\<lambda>n. Inl (LibError ''connection refused''))"
  define ctx1 :: "nat \<Rightarrow> goerr option" where "ctx1 = (\<lambda>n. None)"
  define ctx2 :: "nat \<Rightarrow> goerr option"
    where "ctx2 = (\<lambda>n. if n = 3 then Some (LibError ''context canceled'') else None)"
  have h1: "2 \<le> maxRetries \<and> dial1 2 = Inr ''conn'' \<and> (\<forall>j<2. \<exists>e. dial1 j = Inl e) \<and>
          (\<forall>j. 1 \<le> j \<and> j \<le> 2 \<longrightarrow> ctx1 j = None)"
    by (simp add: maxRetries_def dial1_def ctx1_def)
  have h2: "0 < (3::nat) \<and> 3 \<le> maxRetries \<and> ctx2 3 = Some (LibError ''context canceled'') \<and>
          (\<forall>j<3. dial2 j = Inl ((\<lambda>n. LibError ''connection refused'') j)) \<and>
          (\<forall>j. 1 \<le> j \<and> j < 3 \<longrightarrow> ctx2 j = None)"
    by (simp add: maxRetries_def dial2_def ctx2_def)
  note ok = newWSClient_retries[of dial1 ctx1, THEN conjunct2, THEN conjunct2, THEN conjunct2,
      THEN conjunct2, THEN conjunct1, rule_format, of 2 "''conn''"]
  note cancelled = newWSClient_retries[of dial2 ctx2, THEN conjunct2, THEN conjunct2,
      THEN conjunct2, THEN conjunct2, THEN conjunct2, THEN conjunct1, rule_format,
      of 3 "LibError ''context canceled''" "\<lambda>n. LibError ''connection refused''"]
  have r1: "NewWSClient dial1 ctx1 = ((Some ''conn'', None), attempts_trace 2)"
    using ok[OF h1] .
  have "NewWSClient dial2 ctx2 =
        ((None, Some (Errorf ''ws connect cancelled after %d attempts: %w (last error: %v)''
                        [ArgD (int 3), ArgW (LibError ''context canceled''),
                         ArgE (Some ((\<lambda>n. LibError ''connection refused'') (3 - 1 :: nat)))])),
         attempts_trace (3 - 1))"
    using cancelled[OF h2] .
  then have r2: "NewWSClient dial2 ctx2 =
        ((None, Some (Errorf ''ws connect cancelled after %d attempts: %w (last error: %v)''
                        [ArgD 3, ArgW (LibError ''context canceled''),
                         ArgE (Some (LibError ''connection refused''))])),
         attempts_trace 2)"
    by simp
  from r1 r2 show ?thesis unfolding tr dial1_def dial2_def ctx1_def ctx2_def by (rule conjI)
qed

section \<open>The session transport: the handshake\<close>

text \<open>
  The handshake (ws.go) calls into \<open>fmt\<close>, \<open>crypto/ed25519\<close>, \<open>encoding/base64\<close> and
  \<open>encoding/json\<close>. The cryptographic functions and \<open>%x\<close> are further parameters;
  the verbs \<open>%s\<close> and \<open>%d\<close> of \<open>fmt.Sprintf\<close> and \<open>strings.Join\<close> are written out.
\<close>

record 'n seclib = "'n stdlib" +
  fmt_Sprintf_x :: "string \<Rightarrow> string"
  ed25519_Sign :: "string \<Rightarrow> string \<Rightarrow> string"
  base64_RawURLEncoding :: "string \<Rightarrow> string"
  json_Marshal :: "'n anyval \<Rightarrow> string + string"

definition digit :: "nat \<Rightarrow> char" where
  "digit d = ''0123456789'' ! d"

fun digits :: "nat \<Rightarrow> string" where
  "digits n = (if n < 10 then [digit n] else digits (n div 10) @ [digit (n mod 10)])"

declare digits.simps [simp del]

text \<open>\<open>%d\<close> of an integer: its decimal digits, with a minus sign when negative.\<close>

definition itoa :: "int \<Rightarrow> string" where
  "itoa i = (if i < 0 then CHR ''-'' # digits (nat (- i)) else digits (nat i))"

text \<open>
  \<open>fmt.Sprintf\<close> for format strings whose verbs are \<open>%s\<close> with a string argument and
  \<open>%d\<close> with an integer argument, which are the calls the handshake makes. Any other
  use of \<open>%\<close> is copied as it stands rather than rendered as the library would.
\<close>

fun Sprintf :: "string \<Rightarrow> fmtarg list \<Rightarrow> string" where
  "Sprintf (c # v # fmt) args =
     (if c = CHR ''%'' \<and> v = CHR ''s'' then
        (case args of
           ArgS s # rest \<Rightarrow> s @ Sprintf fmt rest
         | _ \<Rightarrow> c # Sprintf (v # fmt) args)
      else if c = CHR ''%'' \<and> v = CHR ''d'' then
        (case args of
           ArgD n # rest \<Rightarrow> itoa n @ Sprintf fmt rest
         | _ \<Rightarrow> c # Sprintf (v # fmt) args)
      else c # Sprintf (v # fmt) args)"
| "Sprintf fmt args = fmt"

fun strings_Join :: "string list \<Rightarrow> string \<Rightarrow> string" where
  "strings_Join [] sep = []"
| "strings_Join [s] sep = s"
| "strings_Join (s # rest) sep = s @ sep @ strings_Join rest sep"

text \<open>
  \<open>wsFrame\<close>, the wire format. The numbers of a frame are those the client sends,
  integers; the client never inspects a number it receives.
\<close>

record wsFrame =
  frameType :: string
  frameID :: string
  frameMethod :: string
  frameParams :: "int anyval"
  frameOK :: "bool option"
  framePayload :: "int anyval"
  frameError :: "int anyval"
  frameEvent :: string

text \<open>
  The \<open>select\<close> that opens the handshake takes one of three cases: a frame from the
  challenge channel, the five-second timer, or the context. The nonce is the string
  under \<open>nonce\<close> of the frame's payload, and stays empty in every other case.
\<close>

datatype challenge_wait = ChallengeArrived wsFrame | TimerFired | ContextDone goerr

definition challengeNonce_of :: "challenge_wait \<Rightarrow> string" where
  "challengeNonce_of wait =
     (case wait of
        ChallengeArrived frame \<Rightarrow>
          (case framePayload frame of
             VMap p \<Rightarrow> (case map_of p ''nonce'' of Some (VString n) \<Rightarrow> n | _ \<Rightarrow> [])
           | _ \<Rightarrow> [])
      | _ \<Rightarrow> [])"

text \<open>
  The middle of \<open>handshake\<close>, from the device identity to the parameters of the
  \<open>connect\<close> request, given the key pair and the time that \<open>ed25519.GenerateKey\<close>
  and \<open>time.Now().UnixMilli()\<close> returned.
\<close>

definition connect_params ::
  "int seclib \<Rightarrow> string \<Rightarrow> string \<Rightarrow> string \<Rightarrow> string \<Rightarrow> int \<Rightarrow> int gomap" where
  "connect_params lib token challengeNonce pub priv signedAt =
     (let idHash = sha256_Sum256 lib pub;
          deviceID = fmt_Sprintf_x lib idHash;
          publicKeyB64 = base64_RawURLEncoding lib pub;
          clientID = ''cli'';
          clientMode = ''cli'';
          role = ''operator'';
          scopes = [''operator.read'', ''operator.write'', ''operator.admin''];
          authToken = token;
          scopeStr = strings_Join scopes '','';
          signedPayload =
            (if challengeNonce \<noteq> []
             then Sprintf ''%s|%s|%s|%s|%s|%s|%d|%s|%s''
                    [ArgS ''v2'', ArgS deviceID, ArgS clientID, ArgS clientMode, ArgS role,
                     ArgS scopeStr, ArgD signedAt, ArgS authToken, ArgS challengeNonce]
             else Sprintf ''%s|%s|%s|%s|%s|%s|%d|%s''
                    [ArgS ''v1'', ArgS deviceID, ArgS clientID, ArgS clientMode, ArgS role,
                     ArgS scopeStr, ArgD signedAt, ArgS authToken]);
          sig = ed25519_Sign lib priv signedPayload;
          signatureB64 = base64_RawURLEncoding lib sig;
          device = [(''id'', VString deviceID), (''publicKey'', VString publicKeyB64),
                    (''signature'', VString signatureB64), (''signedAt'', VNumber signedAt)];
          device = (if challengeNonce \<noteq> []
                    then AList.update ''nonce'' (VString challengeNonce) device else device);
          params = [(''minProtocol'', VNumber 3), (''maxProtocol'', VNumber 3),
                    (''client'', VMap [(''id'', VString clientID), (''version'', VString ''dev''),
                                      (''platform'', VString ''linux''),
                                      (''mode'', VString clientMode)]),
                    (''role'', VString role),
                    (''scopes'', VList (map VString scopes)),
                    (''caps'', VList []), (''commands'', VList []),
                    (''permissions'', VMap []),
                    (''locale'', VString ''en-US''),
                    (''userAgent'', VString ''terraform-provider-openclaw/dev''),
                    (''device'', VMap device)]
      in if token \<noteq> []
         then AList.update ''auth'' (VMap [(''token'', VString token)]) params
         else params)"

text \<open>
  \<open>handshake\<close>: \<open>call\<close> stands for \<open>c.call(ctx, method, params)\<close>, the request sent
  and its outcome.
\<close>

definition handshake ::
  "int seclib \<Rightarrow> string \<Rightarrow> challenge_wait \<Rightarrow> goerr + string \<times> string \<Rightarrow> int
     \<Rightarrow> (string \<Rightarrow> int anyval \<Rightarrow> goerr + wsFrame) \<Rightarrow> goerr option" where
  "handshake lib token wait generateKey now call =
     (case wait of
        ContextDone ctx_err \<Rightarrow> Some ctx_err
      | _ \<Rightarrow>
        (case generateKey of
           Inl err \<Rightarrow> Some (Errorf ''generate device key: %w'' [ArgW err])
         | Inr (pub, priv) \<Rightarrow>
            (case call ''connect''
                    (VMap (connect_params lib token (challengeNonce_of wait) pub priv now)) of
               Inl err \<Rightarrow> Some err
             | Inr resp \<Rightarrow>
                if frameOK resp = None \<or> frameOK resp = Some False
                then Some (Errorf ''connect rejected: %s''
                        [ArgS (case json_Marshal lib (frameError resp) of
                                 Inl err \<Rightarrow> [] | Inr errBytes \<Rightarrow> errBytes)])
                else None)))"

text \<open>The fields of the canonical encoding, in the order the specification lists them.\<close>

definition signed_fields :: "string \<Rightarrow> string \<Rightarrow> int \<Rightarrow> string \<Rightarrow> string list" where
  "signed_fields nonce deviceID signedAt token =
     [if nonce \<noteq> [] then ''v2'' else ''v1'', deviceID, ''cli'', ''cli'', ''operator'',
      ''operator.read,operator.write,operator.admin'', itoa signedAt, token]
     @ (if nonce \<noteq> [] then [nonce] else [])"

text \<open>
  C4. In every handshake the string signed with the fresh private key is the fields
  joined by \<open>|\<close> in this order: the version tag (\<open>v2\<close> when the challenge gave a
  nonce, \<open>v1\<close> otherwise), the identity (the hash of the public key, in hexadecimal),
  the client descriptor (\<open>cli\<close> as id and as mode), the role, the scopes joined by
  commas, the signing time, the token (empty when there is none) and, in the \<open>v2\<close> form
  only, the nonce as the last field. The signature sent is the encoding of that
  signature, and the identity sent is the one signed.
\<close>

theorem handshake_signs_canonical_string:
  "(\<exists>device.
      map_of (connect_params lib token (challengeNonce_of wait) pub priv signedAt) ''device''
        = Some (VMap device) \<and>
      map_of device ''id'' = Some (VString (fmt_Sprintf_x lib (sha256_Sum256 lib pub))) \<and>
      map_of device ''signature'' =
        Some (VString (base64_RawURLEncoding lib (ed25519_Sign lib priv
           (strings_Join
              (signed_fields (challengeNonce_of wait)
                 (fmt_Sprintf_x lib (sha256_Sum256 lib pub)) signedAt token) ''|''))))) \<and>
   signed_fields [] deviceID signedAt token =
     [''v1'', deviceID, ''cli'', ''cli'', ''operator'',
      ''operator.read,operator.write,operator.admin'', itoa signedAt, token] \<and>
   signed_fields (n # nonce) deviceID signedAt token =
     [''v2'', deviceID, ''cli'', ''cli'', ''operator'',
      ''operator.read,operator.write,operator.admin'', itoa signedAt, token, n # nonce] \<and>
   challengeNonce_of TimerFired = [] \<and>
   challengeNonce_of (ChallengeArrived (frame\<lparr>framePayload := VMap [(''nonce'', VString n')]\<rparr>))
     = n'"
  by (auto simp: connect_params_def signed_fields_def Let_def update_conv' challengeNonce_of_def)

text \<open>
  An example with a library that signs by returning the message and encodes by the
  identity, so that the signature field shows the signed string.
\<close>

definition example_seclib :: "int seclib" where
  "example_seclib = \<lparr>
     json_Unmarshal = json_Unmarshal example_lib,
     json_MarshalIndent = json_MarshalIndent example_lib,
     sha256_Sum256 = (\<lambda>data. data),
     hex_EncodeToString = (\<lambda>data. data),
     filepath_Dir = filepath_Dir example_lib,
     fmt_Sprintf_x = (\<lambda>hash. ''id-of-'' @ hash),
     ed25519_Sign = (\<lambda>priv message. message),
     base64_RawURLEncoding = (\<lambda>data. data),
     json_Marshal = (\<lambda>v. Inr ''null'') \<rparr>"

lemma itoa_example: "itoa 1730000000123 = ''1730000000123''"
  by (simp add: itoa_def digits.simps digit_def)

lemma handshake_example:
  "map_of (connect_params example_seclib ''tok'' ''n1'' ''PUB'' ''PRIV'' 1730000000123) ''device''
     = Some (VMap [(''id'', VString ''id-of-PUB''), (''publicKey'', VString ''PUB''),
          (''signature'', VString
             ''v2|id-of-PUB|cli|cli|operator|operator.read,operator.write,operator.admin|1730000000123|tok|n1''),
          (''signedAt'', VNumber 1730000000123), (''nonce'', VString ''n1'')])"
  by (simp add: connect_params_def example_seclib_def itoa_example Let_def)

section \<open>The session transport: request multiplexing\<close>

text \<open>
  \<open>call\<close> and \<open>readPump\<close> (ws.go) run in different goroutines on one \<open>WSClient\<close>.
  They are modelled as a transition system whose steps are the actions the code makes
  atomic: the atomic add on \<open>nextID\<close>, each critical section under \<open>c.mu\<close>, each send
  and receive on a channel, each case of the \<open>select\<close>. Every interleaving of the
  goroutines is a sequence of such steps.

  A caller is one execution of \<open>call\<close>; callers are numbered, and the channel a caller
  makes is named by the caller's number. The channel has capacity 1: it holds at most
  one frame.
\<close>

datatype pc = NotStarted | Allocated | Registered | Waiting | Deferred | Returned

record caller =
  at :: pc
  num :: "64 word"
  ch :: "wsFrame option"
  call_method :: string
  call_params :: "int anyval"
  returns :: "(goerr + wsFrame) option"

datatype pump = Reading | Sending wsFrame nat | Exited

record session =
  nextID :: "64 word"
  pending :: "string \<rightharpoonup> nat"
  challenge :: "wsFrame option"
  done_closed :: bool
  written :: "wsFrame list"
  readPump :: pump
  callers :: "nat \<Rightarrow> caller"

text \<open>\<open>id := fmt.Sprintf("tf-%d", n)\<close> for the value \<open>n\<close> that \<open>c.nextID.Add(1)\<close> returned.\<close>

definition request_id :: "64 word \<Rightarrow> string" where
  "request_id n = Sprintf ''tf-%d'' [ArgD (sint n)]"

definition id_of :: "session \<Rightarrow> nat \<Rightarrow> string" where
  "id_of s t = request_id (num (callers s t))"

definition move :: "nat \<Rightarrow> (caller \<Rightarrow> caller) \<Rightarrow> session \<Rightarrow> session" where
  "move t f s = s\<lparr>callers := (callers s)(t := f (callers s t))\<rparr>"

text \<open>
  The state \<open>dialAndHandshake\<close> builds: no request pending, both channels empty,
  \<open>done\<close> open, the read pump started.
\<close>

definition fresh_caller :: caller where
  "fresh_caller = \<lparr>at = NotStarted, num = 0, ch = None, call_method = [], call_params = VNil,
     returns = None\<rparr>"

definition connected :: session where
  "connected = \<lparr>nextID = 0, pending = Map.empty, challenge = None, done_closed = False,
     written = [], readPump = Reading, callers = (\<lambda>t. fresh_caller)\<rparr>"

text \<open>
  The first two statements of \<open>call\<close>: the atomic add gives the number, and the channel
  is made, empty.
\<close>

definition call_begin :: "nat \<Rightarrow> string \<Rightarrow> int anyval \<Rightarrow> session \<Rightarrow> session" where
  "call_begin t m p s =
     (move t (\<lambda>c. c\<lparr>at := Allocated, num := nextID s + 1, ch := None, call_method := m,
                     call_params := p\<rparr>) s)\<lparr>nextID := nextID s + 1\<rparr>"

definition request_frame :: "session \<Rightarrow> nat \<Rightarrow> wsFrame" where
  "request_frame s t =
     \<lparr>frameType = ''req'', frameID = id_of s t, frameMethod = call_method (callers s t),
      frameParams = call_params (callers s t), frameOK = None, framePayload = VNil,
      frameError = VNil, frameEvent = []\<rparr>"

text \<open>
  The other steps. Of \<open>call\<close>: the registration under the lock; the failure of
  \<open>json.Marshal\<close>; the write under the lock, or its failure; the three cases of the
  \<open>select\<close>; and the deferred \<open>delete(c.pending, id)\<close>. Of \<open>readPump\<close>: the failure of
  \<open>ReadMessage\<close>, which closes \<open>done\<close>; a frame that is a response with a pending
  identifier, whose channel is looked up under the lock; the send on that channel, which
  has to find it empty; and any other frame, which goes to the challenge channel when it
  is the challenge event and that channel is empty, and is dropped otherwise.
\<close>

inductive step :: "session \<Rightarrow> session \<Rightarrow> bool" where
  register:
    "at (callers s t) = Allocated \<Longrightarrow>
     step s ((move t (\<lambda>c. c\<lparr>at := Registered\<rparr>) s)\<lparr>pending := (pending s)(id_of s t \<mapsto> t)\<rparr>)"
| marshal_fails:
    "at (callers s t) = Registered \<Longrightarrow>
     step s (move t (\<lambda>c. c\<lparr>at := Deferred,
        returns := Some (Inl (Errorf ''marshal request: %w'' [ArgW (LibError err)]))\<rparr>) s)"
| write_ok:
    "at (callers s t) = Registered \<Longrightarrow>
     step s ((move t (\<lambda>c. c\<lparr>at := Waiting\<rparr>) s)\<lparr>written := written s @ [request_frame s t]\<rparr>)"
| write_fails:
    "at (callers s t) = Registered \<Longrightarrow>
     step s (move t (\<lambda>c. c\<lparr>at := Deferred,
        returns := Some (Inl (Errorf ''ws write: %w'' [ArgW (LibError err)]))\<rparr>) s)"
| receive:
    "at (callers s t) = Waiting \<Longrightarrow> ch (callers s t) = Some resp \<Longrightarrow>
     step s (move t (\<lambda>c. c\<lparr>at := Deferred, ch := None, returns := Some (Inr resp)\<rparr>) s)"
| deadline:
    "at (callers s t) = Waiting \<Longrightarrow>
     step s (move t (\<lambda>c. c\<lparr>at := Deferred, returns := Some (Inl ctx_err)\<rparr>) s)"
| closed:
    "at (callers s t) = Waiting \<Longrightarrow> done_closed s \<Longrightarrow>
     step s (move t (\<lambda>c. c\<lparr>at := Deferred,
        returns := Some (Inl (Errorf ''connection closed'' []))\<rparr>) s)"
| unregister:
    "at (callers s t) = Deferred \<Longrightarrow>
     step s ((move t (\<lambda>c. c\<lparr>at := Returned\<rparr>) s)\<lparr>pending := (pending s)(id_of s t := None)\<rparr>)"
| read_fails:
    "readPump s = Reading \<Longrightarrow>
     step s (s\<lparr>readPump := Exited, done_closed := True\<rparr>)"
| route:
    "readPump s = Reading \<Longrightarrow> frameType frame = ''res'' \<Longrightarrow> frameID frame \<noteq> [] \<Longrightarrow>
     pending s (frameID frame) = Some t \<Longrightarrow>
     step s (s\<lparr>readPump := Sending frame t\<rparr>)"
| deliver:
    "readPump s = Sending frame t \<Longrightarrow> ch (callers s t) = None \<Longrightarrow>
     step s ((move t (\<lambda>c. c\<lparr>ch := Some frame\<rparr>) s)\<lparr>readPump := Reading\<rparr>)"
| other_frame:
    "readPump s = Reading \<Longrightarrow>
     \<not> (frameType frame = ''res'' \<and> frameID frame \<noteq> [] \<and> pending s (frameID frame) \<noteq> None) \<Longrightarrow>
     step s (s\<lparr>challenge :=
        (if frameType frame = ''event'' \<and> frameEvent frame = ''connect.challenge'' \<and>
            challenge s = None
         then Some frame else challenge s)\<rparr>)"

text \<open>\<open>runs n s\<close>: the session has reached \<open>s\<close>, with \<open>n\<close> calls begun so far.\<close>

inductive runs :: "nat \<Rightarrow> session \<Rightarrow> bool" where
  start: "runs 0 connected"
| calls: "runs n s \<Longrightarrow> at (callers s t) = NotStarted \<Longrightarrow> runs (Suc n) (call_begin t m p s)"
| steps: "runs n s \<Longrightarrow> step s s' \<Longrightarrow> runs n s'"

text \<open>What holds of every state reached with fewer than \<open>2^63\<close> calls.\<close>

definition numbered :: "nat \<Rightarrow> session \<Rightarrow> bool" where
  "numbered n s \<longleftrightarrow>
     sint (nextID s) = int n \<and>
     (\<forall>t. at (callers s t) \<noteq> NotStarted \<longrightarrow>
        0 < sint (num (callers s t)) \<and> sint (num (callers s t)) \<le> int n) \<and>
     (\<forall>t t'. at (callers s t) \<noteq> NotStarted \<and> at (callers s t') \<noteq> NotStarted \<and>
        num (callers s t) = num (callers s t') \<longrightarrow> t = t')"

definition pending_owned :: "session \<Rightarrow> bool" where
  "pending_owned s \<longleftrightarrow>
     (\<forall>i t. pending s i = Some t \<longrightarrow>
        i = id_of s t \<and> at (callers s t) \<in> {Registered, Waiting, Deferred})"

definition channels_matched :: "session \<Rightarrow> bool" where
  "channels_matched s \<longleftrightarrow>
     (\<forall>t resp. ch (callers s t) = Some resp \<longrightarrow>
        frameID resp = id_of s t \<and> frameType resp = ''res'' \<and>
        at (callers s t) \<notin> {NotStarted, Allocated})"

definition pump_matched :: "session \<Rightarrow> bool" where
  "pump_matched s \<longleftrightarrow>
     (\<forall>resp t. readPump s = Sending resp t \<longrightarrow>
        frameID resp = id_of s t \<and> frameType resp = ''res'' \<and>
        at (callers s t) \<notin> {NotStarted, Allocated})"

definition returns_matched :: "session \<Rightarrow> bool" where
  "returns_matched s \<longleftrightarrow>
     (\<forall>t resp. returns (callers s t) = Some (Inr resp) \<longrightarrow>
        frameID resp = id_of s t \<and> frameType resp = ''res'')"

definition returned_unregistered :: "session \<Rightarrow> bool" where
  "returned_unregistered s \<longleftrightarrow>
     (\<forall>t. at (callers s t) = Returned \<longrightarrow>
        pending s (id_of s t) = None \<and> returns (callers s t) \<noteq> None)"

definition early_empty :: "session \<Rightarrow> bool" where
  "early_empty s \<longleftrightarrow>
     (\<forall>t. (at (callers s t) \<in> {NotStarted, Allocated} \<longrightarrow>
             ch (callers s t) = None \<and> returns (callers s t) = None) \<and>
          (at (callers s t) = Deferred \<longrightarrow> returns (callers s t) \<noteq> None))"

definition routed :: "session \<Rightarrow> bool" where
  "routed s \<longleftrightarrow> pending_owned s \<and> channels_matched s \<and> pump_matched s \<and>
     returns_matched s \<and> returned_unregistered s \<and> early_empty s"

definition registered_present :: "session \<Rightarrow> bool" where
  "registered_present s \<longleftrightarrow>
     (\<forall>t. at (callers s t) \<in> {Registered, Waiting, Deferred} \<longrightarrow>
        pending s (id_of s t) = Some t)"

text \<open>Reading the decimal digits back, to show that distinct numbers print differently.\<close>

definition digit_val :: "char \<Rightarrow> nat" where
  "digit_val c = of_char c - 48"

definition undigits :: "string \<Rightarrow> nat" where
  "undigits s = foldl (\<lambda>a c. 10 * a + digit_val c) 0 s"

lemma lt10: "d < (10::nat) \<Longrightarrow> d = 0 \<or> d = 1 \<or> d = 2 \<or> d = 3 \<or> d = 4 \<or> d = 5 \<or> d = 6 \<or> d = 7 \<or> d = 8 \<or> d = 9"
  by arith

lemma digit_val_digit: "d < 10 \<Longrightarrow> digit_val (digit d) = d"
  by (drule lt10) (auto simp: digit_def digit_val_def)

lemma digit_not_minus: "d < 10 \<Longrightarrow> digit d \<noteq> CHR ''-''"
  by (drule lt10) (auto simp: digit_def)

lemma undigits_snoc: "undigits (s @ [c]) = 10 * undigits s + digit_val c"
  by (simp add: undigits_def)

lemma undigits_digits: "undigits (digits n) = n"
proof (induction n rule: digits.induct)
  case (1 n)
  show ?case
  proof (cases "n < 10")
    case True
    then show ?thesis
      by (subst digits.simps) (simp add: undigits_def digit_val_digit)
  next
    case False
    with 1 have "undigits (digits (n div 10)) = n div 10" by simp
    with False show ?thesis
      by (subst digits.simps) (simp add: undigits_snoc digit_val_digit)
  qed
qed

lemma digits_no_minus: "CHR ''-'' \<notin> set (digits n)"
proof (induction n rule: digits.induct)
  case (1 n)
  show ?case
  proof (cases "n < 10")
    case True
    then show ?thesis
      using digit_not_minus[of n] by (subst digits.simps) auto
  next
    case False
    with 1 have "CHR ''-'' \<notin> set (digits (n div 10))" by simp
    with False show ?thesis
      using digit_not_minus[of "n mod 10"] by (subst digits.simps) auto
  qed
qed

lemma digits_nonempty: "digits n \<noteq> []"
  by (subst digits.simps) simp

lemma itoa_inj: "itoa i = itoa j \<Longrightarrow> i = j"
proof -
  assume eq: "itoa i = itoa j"
  have hdn: "\<And>n. hd (digits n) \<noteq> CHR ''-''"
    using digits_no_minus digits_nonempty by (metis hd_in_set)
  show ?thesis
  proof (cases "i < 0"; cases "j < 0")
    assume "i < 0" "j < 0"
    with eq have "digits (nat (- i)) = digits (nat (- j))" by (simp add: itoa_def)
    then have "undigits (digits (nat (- i))) = undigits (digits (nat (- j)))" by simp
    with \<open>i < 0\<close> \<open>j < 0\<close> show ?thesis by (simp add: undigits_digits)
  next
    assume "i < 0" "\<not> j < 0"
    with eq have "CHR ''-'' # digits (nat (- i)) = digits (nat j)" by (simp add: itoa_def)
    then have "hd (digits (nat j)) = CHR ''-''" by (metis list.sel(1))
    with hdn show ?thesis by blast
  next
    assume "\<not> i < 0" "j < 0"
    with eq have "digits (nat i) = CHR ''-'' # digits (nat (- j))" by (simp add: itoa_def)
    then have "hd (digits (nat i)) = CHR ''-''" by (metis list.sel(1))
    with hdn show ?thesis by blast
  next
    assume "\<not> i < 0" "\<not> j < 0"
    with eq have "digits (nat i) = digits (nat j)" by (simp add: itoa_def)
    then have "undigits (digits (nat i)) = undigits (digits (nat j))" by simp
    with \<open>\<not> i < 0\<close> \<open>\<not> j < 0\<close> show ?thesis by (simp add: undigits_digits)
  qed
qed

lemma request_id_eq: "request_id n = ''tf-'' @ itoa (sint n)"
  by (simp add: request_id_def)

lemma request_id_inj: "request_id a = request_id b \<Longrightarrow> a = b"
  by (simp add: request_id_eq) (metis itoa_inj signed_word_eqI)

lemma sint_next:
  assumes "sint (w :: 64 word) = int n" "Suc n < 2 ^ 63"
  shows "sint (w + 1) = int (Suc n)"
proof -
  have "sint (w + 1) = signed_take_bit 63 (sint w + sint (1 :: 64 word))"
    by (simp add: sint_word_add)
  also have "\<dots> = signed_take_bit 63 (int n + 1)"
    using assms(1) by simp
  also have "\<dots> = int n + 1"
    using assms(2) by (intro signed_take_bit_int_eq_self) auto
  finally show ?thesis by simp
qed

lemma step_keeps_numbers:
  "step s s' \<Longrightarrow>
     nextID s' = nextID s \<and>
     (\<forall>t. num (callers s' t) = num (callers s t)) \<and>
     (\<forall>t. at (callers s' t) = NotStarted \<longleftrightarrow> at (callers s t) = NotStarted)"
  by (induction rule: step.induct) (auto simp: move_def)

lemma step_numbered: "step s s' \<Longrightarrow> numbered n s \<Longrightarrow> numbered n s'"
  using step_keeps_numbers[of s s'] by (simp add: numbered_def)

lemma step_id_of: "step s s' \<Longrightarrow> id_of s' t = id_of s t"
  using step_keeps_numbers[of s s'] by (simp add: id_of_def)

lemma numbered_ids:
  "numbered n s \<Longrightarrow> at (callers s t) \<noteq> NotStarted \<Longrightarrow> at (callers s t') \<noteq> NotStarted \<Longrightarrow>
     id_of s t = id_of s t' \<Longrightarrow> t = t'"
  unfolding numbered_def id_of_def using request_id_inj by blast

lemma callers_move [simp]:
  "callers (move t f s) u = (if u = t then f (callers s t) else callers s u)"
  by (simp add: move_def)

lemma fields_move [simp]:
  "pending (move t f s) = pending s"
  "nextID (move t f s) = nextID s"
  "readPump (move t f s) = readPump s"
  "done_closed (move t f s) = done_closed s"
  "challenge (move t f s) = challenge s"
  "written (move t f s) = written s"
  by (simp_all add: move_def)

lemma step_pending_owned:
  "step s s' \<Longrightarrow> pending_owned s \<Longrightarrow> pending_owned s'"
proof (induction rule: step.induct)
  case (register s t)
  then show ?case by (auto simp: pending_owned_def id_of_def)
next
  case (unregister s t)
  then show ?case by (auto simp: pending_owned_def id_of_def)
qed (auto simp: pending_owned_def id_of_def)

lemma step_channels_matched:
  "step s s' \<Longrightarrow> channels_matched s \<Longrightarrow> pump_matched s \<Longrightarrow> channels_matched s'"
  by (induction rule: step.induct) (auto simp: channels_matched_def pump_matched_def id_of_def)

lemma step_pump_matched:
  "step s s' \<Longrightarrow> pending_owned s \<Longrightarrow> pump_matched s \<Longrightarrow> pump_matched s'"
proof (induction rule: step.induct)
  case (route s frame t)
  from route.prems(1) route.hyps(4)
  have "frameID frame = id_of s t \<and> at (callers s t) \<in> {Registered, Waiting, Deferred}"
    unfolding pending_owned_def by blast
  with route.hyps show ?case by (auto simp: pump_matched_def id_of_def)
qed (auto simp: pending_owned_def pump_matched_def id_of_def)

lemma step_returns_matched:
  "step s s' \<Longrightarrow> channels_matched s \<Longrightarrow> returns_matched s \<Longrightarrow> returns_matched s'"
proof (induction rule: step.induct)
  case (receive s t resp)
  from receive.prems(1) receive.hyps(2)
  have "frameID resp = id_of s t \<and> frameType resp = ''res''"
    unfolding channels_matched_def by blast
  with receive.prems(2) show ?case by (auto simp: returns_matched_def id_of_def)
qed (auto simp: returns_matched_def id_of_def)

lemma step_early_empty:
  "step s s' \<Longrightarrow> early_empty s \<Longrightarrow> pump_matched s \<Longrightarrow> early_empty s'"
  by (induction rule: step.induct) (auto simp: early_empty_def pump_matched_def)

lemma step_returned_unregistered:
  assumes "step s s'" "numbered n s" "returned_unregistered s" "early_empty s"
  shows "returned_unregistered s'"
  using assms
proof (induction rule: step.induct)
  case (register s t)
  have other: "id_of s u \<noteq> id_of s t" if "at (callers s u) = Returned" for u
  proof
    assume "id_of s u = id_of s t"
    with numbered_ids[OF register.prems(1), of u t] that register.hyps have "u = t" by simp
    with that register.hyps show False by simp
  qed
  show ?case
    unfolding returned_unregistered_def
  proof (intro allI impI)
    fix u
    assume r: "at (callers ((move t (\<lambda>c. c\<lparr>at := Registered\<rparr>) s)
        \<lparr>pending := (pending s)(id_of s t \<mapsto> t)\<rparr>) u) = Returned"
    then have ut: "u \<noteq> t" and ru: "at (callers s u) = Returned"
      by (auto split: if_splits)
    from register.prems(2) ru have "pending s (id_of s u) = None \<and> returns (callers s u) \<noteq> None"
      unfolding returned_unregistered_def by blast
    with ut other[OF ru] show "pending ((move t (\<lambda>c. c\<lparr>at := Registered\<rparr>) s)
        \<lparr>pending := (pending s)(id_of s t \<mapsto> t)\<rparr>)
        (id_of ((move t (\<lambda>c. c\<lparr>at := Registered\<rparr>) s)
          \<lparr>pending := (pending s)(id_of s t \<mapsto> t)\<rparr>) u) = None \<and>
        returns (callers ((move t (\<lambda>c. c\<lparr>at := Registered\<rparr>) s)
          \<lparr>pending := (pending s)(id_of s t \<mapsto> t)\<rparr>) u) \<noteq> None"
      by (simp add: id_of_def)
  qed
next
  case (unregister s t)
  then show ?case
    by (auto simp: returned_unregistered_def early_empty_def id_of_def)
qed (auto simp: returned_unregistered_def id_of_def)

lemma step_routed:
  assumes "step s s'" "numbered n s" "routed s"
  shows "routed s'"
  using assms unfolding routed_def
  by (auto intro: step_pending_owned step_channels_matched step_pump_matched
      step_returns_matched step_early_empty step_returned_unregistered)

lemma begin_numbered:
  assumes "numbered n s" "Suc n < 2 ^ 63" "at (callers s t) = NotStarted"
  shows "numbered (Suc n) (call_begin t m p s)"
proof -
  have nx: "sint (nextID s + 1) = int (Suc n)"
    using assms(1,2) by (intro sint_next) (simp_all add: numbered_def)
  have old: "\<And>u. at (callers s u) \<noteq> NotStarted \<Longrightarrow>
      0 < sint (num (callers s u)) \<and> sint (num (callers s u)) \<le> int n"
    using assms(1) by (simp add: numbered_def)
  have differ: "\<And>u. at (callers s u) \<noteq> NotStarted \<Longrightarrow> num (callers s u) \<noteq> nextID s + 1"
    using old nx by fastforce
  have uniq: "\<And>u u'. at (callers s u) \<noteq> NotStarted \<Longrightarrow> at (callers s u') \<noteq> NotStarted \<Longrightarrow>
      num (callers s u) = num (callers s u') \<Longrightarrow> u = u'"
    using assms(1) unfolding numbered_def by blast
  have a: "sint (nextID (call_begin t m p s)) = int (Suc n)"
    using nx by (simp add: call_begin_def)
  have b: "\<forall>u. at (callers (call_begin t m p s) u) \<noteq> NotStarted \<longrightarrow>
        0 < sint (num (callers (call_begin t m p s) u)) \<and>
        sint (num (callers (call_begin t m p s) u)) \<le> int (Suc n)"
  proof (intro allI impI)
    fix u
    assume u: "at (callers (call_begin t m p s) u) \<noteq> NotStarted"
    show "0 < sint (num (callers (call_begin t m p s) u)) \<and>
        sint (num (callers (call_begin t m p s) u)) \<le> int (Suc n)"
    proof (cases "u = t")
      case True
      with nx show ?thesis by (simp add: call_begin_def)
    next
      case False
      with u have "at (callers s u) \<noteq> NotStarted" by (simp add: call_begin_def)
      from old[OF this] False show ?thesis by (simp add: call_begin_def)
    qed
  qed
  have c: "\<forall>u u'. at (callers (call_begin t m p s) u) \<noteq> NotStarted \<and>
        at (callers (call_begin t m p s) u') \<noteq> NotStarted \<and>
        num (callers (call_begin t m p s) u) = num (callers (call_begin t m p s) u') \<longrightarrow> u = u'"
  proof (intro allI impI, elim conjE)
    fix u u'
    assume u: "at (callers (call_begin t m p s) u) \<noteq> NotStarted"
      and u': "at (callers (call_begin t m p s) u') \<noteq> NotStarted"
      and eq: "num (callers (call_begin t m p s) u) = num (callers (call_begin t m p s) u')"
    show "u = u'"
    proof (cases "u = t"; cases "u' = t")
      assume "u = t" "u' = t"
      then show ?thesis by simp
    next
      assume ut: "u = t" and nt: "u' \<noteq> t"
      with u' have "at (callers s u') \<noteq> NotStarted" by (simp add: call_begin_def)
      from differ[OF this] eq ut nt show ?thesis by (simp add: call_begin_def)
    next
      assume nt: "u \<noteq> t" and ut: "u' = t"
      with u have "at (callers s u) \<noteq> NotStarted" by (simp add: call_begin_def)
      from differ[OF this] eq ut nt show ?thesis by (simp add: call_begin_def)
    next
      assume nt: "u \<noteq> t" and nt': "u' \<noteq> t"
      with u u' have "at (callers s u) \<noteq> NotStarted" "at (callers s u') \<noteq> NotStarted"
        by (simp_all add: call_begin_def)
      from uniq[OF this] eq nt nt' show ?thesis by (simp add: call_begin_def)
    qed
  qed
  from a b c show ?thesis unfolding numbered_def by blast
qed

lemma begin_routed:
  assumes "routed s" "at (callers s t) = NotStarted"
  shows "routed (call_begin t m p s)"
proof -
  have none: "pending s i \<noteq> Some t" for i
    using assms unfolding routed_def pending_owned_def by force
  have 1: "pending_owned (call_begin t m p s)"
    using assms none by (auto simp: routed_def pending_owned_def call_begin_def id_of_def)
  have 2: "channels_matched (call_begin t m p s)"
    using assms by (auto simp: routed_def channels_matched_def call_begin_def id_of_def)
  have 3: "pump_matched (call_begin t m p s)"
    using assms by (auto simp: routed_def pump_matched_def call_begin_def id_of_def)
  have 4: "returns_matched (call_begin t m p s)"
    using assms
    by (auto simp: routed_def returns_matched_def early_empty_def call_begin_def id_of_def)
  have 5: "returned_unregistered (call_begin t m p s)"
    using assms by (auto simp: routed_def returned_unregistered_def call_begin_def id_of_def)
  have 6: "early_empty (call_begin t m p s)"
    using assms by (auto simp: routed_def early_empty_def call_begin_def)
  from 1 2 3 4 5 6 show ?thesis by (simp add: routed_def)
qed

lemma connected_good: "numbered 0 connected \<and> routed connected"
  by (simp add: numbered_def routed_def connected_def fresh_caller_def pending_owned_def
      channels_matched_def pump_matched_def returns_matched_def returned_unregistered_def
      early_empty_def)

lemma runs_good: "runs n s \<Longrightarrow> n < 2 ^ 63 \<Longrightarrow> numbered n s \<and> routed s"
proof (induction rule: runs.induct)
  case start
  show ?case by (rule connected_good)
next
  case (calls n s t m p)
  then have "numbered n s \<and> routed s" by simp
  with calls.hyps(2) calls.prems show ?case
    by (simp add: begin_numbered begin_routed)
next
  case (steps n s s')
  then have "numbered n s \<and> routed s" by simp
  with steps.hyps(2) show ?case
    by (auto intro: step_numbered step_routed)
qed

lemma step_registered_present:
  assumes "step s s'" "numbered n s" "registered_present s"
  shows "registered_present s'"
  using assms
proof (induction rule: step.induct)
  case (register s t)
  have other: "id_of s u \<noteq> id_of s t" if "at (callers s u) \<in> {Registered, Waiting, Deferred}" for u
  proof
    assume "id_of s u = id_of s t"
    with numbered_ids[OF register.prems(1), of u t] that register.hyps have "u = t" by auto
    with that register.hyps show False by simp
  qed
  from register.prems(2) other show ?case
    by (auto simp: registered_present_def id_of_def)
next
  case (unregister s t)
  have other: "id_of s u \<noteq> id_of s t"
    if "at (callers s u) \<in> {Registered, Waiting, Deferred}" "u \<noteq> t" for u
  proof
    assume "id_of s u = id_of s t"
    with numbered_ids[OF unregister.prems(1), of u t] that unregister.hyps have "u = t" by auto
    with that show False by simp
  qed
  from unregister.prems(2) other show ?case
    by (auto simp: registered_present_def id_of_def)
qed (auto simp: registered_present_def id_of_def)

lemma begin_registered_present:
  "registered_present s \<Longrightarrow> at (callers s t) = NotStarted \<Longrightarrow>
     registered_present (call_begin t m p s)"
  by (auto simp: registered_present_def call_begin_def id_of_def)

lemma runs_registered_present: "runs n s \<Longrightarrow> n < 2 ^ 63 \<Longrightarrow> registered_present s"
proof (induction rule: runs.induct)
  case start
  show ?case by (simp add: registered_present_def connected_def fresh_caller_def)
next
  case (calls n s t m p)
  then show ?case by (simp add: begin_registered_present)
next
  case (steps n s s')
  from steps.hyps(1) steps.prems have "numbered n s" by (simp add: runs_good)
  with steps show ?case by (auto intro: step_registered_present)
qed

lemma begin_larger:
  assumes "numbered n s" "Suc n < 2 ^ 63" "at (callers s u) \<noteq> NotStarted"
  shows "sint (num (callers s u)) < sint (num (callers (call_begin t m p s) t))"
proof -
  have "sint (nextID s + 1) = int (Suc n)"
    using assms(1,2) by (intro sint_next) (simp_all add: numbered_def)
  moreover have "sint (num (callers s u)) \<le> int n"
    using assms(1,3) by (simp add: numbered_def)
  ultimately show ?thesis by (simp add: call_begin_def)
qed

text \<open>
  C6. In every state a session reaches by any interleaving of its callers and its read
  pump (with fewer than \<open>2^63\<close> calls begun, so that \<open>nextID\<close> has not wrapped): a caller
  that returns a response returns a response frame carrying the identifier made for its
  own request, which is the identifier of no other caller; the numbers behind the
  identifiers are distinct, positive, and each new call's number is above all earlier
  ones; a caller that is registered, waiting or about to unregister has its channel in
  the table under its identifier; and a caller that has returned, with a response, a
  deadline error or the connection-closed error, has no entry left in the table.
\<close>

theorem call_receives_own_response:
  "runs n s \<Longrightarrow> n < 2 ^ 63 \<Longrightarrow>
     (\<forall>t resp. returns (callers s t) = Some (Inr resp) \<longrightarrow>
        frameType resp = ''res'' \<and> frameID resp = id_of s t \<and>
        (\<forall>t'. t' \<noteq> t \<and> at (callers s t') \<noteq> NotStarted \<longrightarrow> frameID resp \<noteq> id_of s t')) \<and>
     (\<forall>t t'. at (callers s t) \<noteq> NotStarted \<and> at (callers s t') \<noteq> NotStarted \<and> t \<noteq> t' \<longrightarrow>
        id_of s t \<noteq> id_of s t') \<and>
     (\<forall>t. at (callers s t) \<noteq> NotStarted \<longrightarrow>
        0 < sint (num (callers s t)) \<and> sint (num (callers s t)) \<le> int n) \<and>
     (\<forall>t m p u. Suc n < 2 ^ 63 \<and> at (callers s t) = NotStarted \<and>
        at (callers s u) \<noteq> NotStarted \<longrightarrow>
        sint (num (callers s u)) < sint (num (callers (call_begin t m p s) t))) \<and>
     (\<forall>t. at (callers s t) \<in> {Registered, Waiting, Deferred} \<longrightarrow>
        pending s (id_of s t) = Some t) \<and>
     (\<forall>t. at (callers s t) = Returned \<longrightarrow>
        returns (callers s t) \<noteq> None \<and> pending s (id_of s t) = None \<and>
        (\<forall>i. pending s i \<noteq> Some t))"
proof -
  assume r: "runs n s" and n: "n < 2 ^ 63"
  from runs_good[OF r n] have num: "numbered n s" and rt: "routed s" by simp_all
  from runs_registered_present[OF r n] have rp: "registered_present s" .
  note ids = numbered_ids[OF num]
  have own: "\<forall>t resp. returns (callers s t) = Some (Inr resp) \<longrightarrow>
        frameType resp = ''res'' \<and> frameID resp = id_of s t \<and>
        (\<forall>t'. t' \<noteq> t \<and> at (callers s t') \<noteq> NotStarted \<longrightarrow> frameID resp \<noteq> id_of s t')"
  proof (intro allI impI)
    fix t resp
    assume got: "returns (callers s t) = Some (Inr resp)"
    with rt have m: "frameType resp = ''res''" "frameID resp = id_of s t"
      unfolding routed_def returns_matched_def by blast+
    from got rt have st: "at (callers s t) \<noteq> NotStarted"
      unfolding routed_def early_empty_def by force
    have "\<forall>t'. t' \<noteq> t \<and> at (callers s t') \<noteq> NotStarted \<longrightarrow> frameID resp \<noteq> id_of s t'"
      using ids[OF st] m(2) by metis
    with m show "frameType resp = ''res'' \<and> frameID resp = id_of s t \<and>
        (\<forall>t'. t' \<noteq> t \<and> at (callers s t') \<noteq> NotStarted \<longrightarrow> frameID resp \<noteq> id_of s t')"
      by blast
  qed
  have uniq: "\<forall>t t'. at (callers s t) \<noteq> NotStarted \<and> at (callers s t') \<noteq> NotStarted \<and> t \<noteq> t' \<longrightarrow>
        id_of s t \<noteq> id_of s t'"
    using ids by blast
  have rng: "\<forall>t. at (callers s t) \<noteq> NotStarted \<longrightarrow>
        0 < sint (num (callers s t)) \<and> sint (num (callers s t)) \<le> int n"
    using num unfolding numbered_def by blast
  have mono: "\<forall>t m p u. Suc n < 2 ^ 63 \<and> at (callers s t) = NotStarted \<and>
        at (callers s u) \<noteq> NotStarted \<longrightarrow>
        sint (num (callers s u)) < sint (num (callers (call_begin t m p s) t))"
    using begin_larger[OF num] by blast
  have reg: "\<forall>t. at (callers s t) \<in> {Registered, Waiting, Deferred} \<longrightarrow>
        pending s (id_of s t) = Some t"
    using rp unfolding registered_present_def by blast
  have gone: "\<forall>t. at (callers s t) = Returned \<longrightarrow>
        returns (callers s t) \<noteq> None \<and> pending s (id_of s t) = None \<and>
        (\<forall>i. pending s i \<noteq> Some t)"
  proof (intro allI impI)
    fix t
    assume ret: "at (callers s t) = Returned"
    with rt have a: "returns (callers s t) \<noteq> None" "pending s (id_of s t) = None"
      unfolding routed_def returned_unregistered_def by blast+
    have "\<forall>i. pending s i \<noteq> Some t"
    proof (intro allI notI)
      fix i assume "pending s i = Some t"
      with rt have "at (callers s t) \<in> {Registered, Waiting, Deferred}"
        unfolding routed_def pending_owned_def by blast
      with ret show False by simp
    qed
    with a show "returns (callers s t) \<noteq> None \<and> pending s (id_of s t) = None \<and>
        (\<forall>i. pending s i \<noteq> Some t)" by blast
  qed
  from own uniq rng mono reg gone show ?thesis by blast
qed

theorem call_receives_own_response_witness:
  "\<exists>s. runs 2 s \<and> (2::nat) < 2 ^ 63 \<and>
      at (callers s 0) = Returned \<and> at (callers s 1) = Returned \<and>
      (\<exists>r0 r1. returns (callers s 0) = Some (Inr r0) \<and> frameID r0 = ''tf-1'' \<and>
               returns (callers s 1) = Some (Inr r1) \<and> frameID r1 = ''tf-2'') \<and>
      pending s ''tf-1'' = None \<and> pending s ''tf-2'' = None"
proof -
  define respA where "respA = \<lparr>frameType = ''res'', frameID = ''tf-1'', frameMethod = [], frameParams = VNil,
       frameOK = Some True, framePayload = VString ''first'', frameError = VNil, frameEvent = []\<rparr>"
  define respB where "respB = \<lparr>frameType = ''res'', frameID = ''tf-2'', frameMethod = [], frameParams = VNil,
       frameOK = Some True, framePayload = VString ''second'', frameError = VNil, frameEvent = []\<rparr>"
  have id1: "request_id 1 = ''tf-1''" and id2: "request_id 2 = ''tf-2''"
    by (simp_all add: request_id_def itoa_def digits.simps digit_def)
  define s0 where "s0 = connected"
  have r0: "runs 0 s0" unfolding s0_def by (rule runs.start)
  have f0: "at (callers s0 0) = NotStarted \<and> at (callers s0 1) = NotStarted \<and>
      num (callers s0 0) = 0 \<and> num (callers s0 1) = 0 \<and>
      ch (callers s0 0) = None \<and> ch (callers s0 1) = None \<and>
      returns (callers s0 0) = None \<and> returns (callers s0 1) = None \<and>
      pending s0 ''tf-1'' = None \<and> pending s0 ''tf-2'' = None \<and>
      readPump s0 = Reading \<and> nextID s0 = 0"
    by (simp add: s0_def connected_def fresh_caller_def)
  define s1 where "s1 = call_begin 0 ''config.get'' (VMap []) s0"
  have r1: "runs (Suc 0) s1"
    unfolding s1_def using f0 by (intro runs.calls[OF r0]) simp
  have f1: "at (callers s1 0) = Allocated \<and> at (callers s1 1) = NotStarted \<and>
      num (callers s1 0) = 1 \<and> num (callers s1 1) = 0 \<and>
      ch (callers s1 0) = None \<and> ch (callers s1 1) = None \<and>
      returns (callers s1 0) = None \<and> returns (callers s1 1) = None \<and>
      pending s1 ''tf-1'' = None \<and> pending s1 ''tf-2'' = None \<and>
      readPump s1 = Reading \<and> nextID s1 = 1"
    using f0 by (simp add: s1_def id_of_def id1 id2 call_begin_def)
  define s2 where "s2 = call_begin 1 ''health'' (VMap []) s1"
  have r2: "runs (Suc (Suc 0)) s2"
    unfolding s2_def using f1 by (intro runs.calls[OF r1]) simp
  have f2: "at (callers s2 0) = Allocated \<and> at (callers s2 1) = Allocated \<and>
      num (callers s2 0) = 1 \<and> num (callers s2 1) = 2 \<and>
      ch (callers s2 0) = None \<and> ch (callers s2 1) = None \<and>
      returns (callers s2 0) = None \<and> returns (callers s2 1) = None \<and>
      pending s2 ''tf-1'' = None \<and> pending s2 ''tf-2'' = None \<and>
      readPump s2 = Reading \<and> nextID s2 = 2"
    using f1 by (simp add: s2_def id_of_def id1 id2 call_begin_def)
  define s3 where "s3 = (move 0 (\<lambda>c. c\<lparr>at := Registered\<rparr>) s2)\<lparr>pending := (pending s2)(id_of s2 0 \<mapsto> 0)\<rparr>"
  have r3: "runs (Suc (Suc 0)) s3"
    unfolding s3_def using f2 by (intro runs.steps[OF r2] step.register) (simp_all add: respA_def respB_def)
  have f3: "at (callers s3 0) = Registered \<and> at (callers s3 1) = Allocated \<and>
      num (callers s3 0) = 1 \<and> num (callers s3 1) = 2 \<and>
      ch (callers s3 0) = None \<and> ch (callers s3 1) = None \<and>
      returns (callers s3 0) = None \<and> returns (callers s3 1) = None \<and>
      pending s3 ''tf-1'' = Some 0 \<and> pending s3 ''tf-2'' = None \<and>
      readPump s3 = Reading \<and> nextID s3 = 2"
    using f2 by (simp add: s3_def id_of_def id1 id2)
  define s4 where "s4 = (move 1 (\<lambda>c. c\<lparr>at := Registered\<rparr>) s3)\<lparr>pending := (pending s3)(id_of s3 1 \<mapsto> 1)\<rparr>"
  have r4: "runs (Suc (Suc 0)) s4"
    unfolding s4_def using f3 by (intro runs.steps[OF r3] step.register) (simp_all add: respA_def respB_def)
  have f4: "at (callers s4 0) = Registered \<and> at (callers s4 1) = Registered \<and>
      num (callers s4 0) = 1 \<and> num (callers s4 1) = 2 \<and>
      ch (callers s4 0) = None \<and> ch (callers s4 1) = None \<and>
      returns (callers s4 0) = None \<and> returns (callers s4 1) = None \<and>
      pending s4 ''tf-1'' = Some 0 \<and> pending s4 ''tf-2'' = Some 1 \<and>
      readPump s4 = Reading \<and> nextID s4 = 2"
    using f3 by (simp add: s4_def id_of_def id1 id2)
  define s5 where "s5 = (move 0 (\<lambda>c. c\<lparr>at := Waiting\<rparr>) s4)\<lparr>written := written s4 @ [request_frame s4 0]\<rparr>"
  have r5: "runs (Suc (Suc 0)) s5"
    unfolding s5_def using f4 by (intro runs.steps[OF r4] step.write_ok) (simp_all add: respA_def respB_def)
  have f5: "at (callers s5 0) = Waiting \<and> at (callers s5 1) = Registered \<and>
      num (callers s5 0) = 1 \<and> num (callers s5 1) = 2 \<and>
      ch (callers s5 0) = None \<and> ch (callers s5 1) = None \<and>
      returns (callers s5 0) = None \<and> returns (callers s5 1) = None \<and>
      pending s5 ''tf-1'' = Some 0 \<and> pending s5 ''tf-2'' = Some 1 \<and>
      readPump s5 = Reading \<and> nextID s5 = 2"
    using f4 by (simp add: s5_def id_of_def id1 id2)
  define s6 where "s6 = (move 1 (\<lambda>c. c\<lparr>at := Waiting\<rparr>) s5)\<lparr>written := written s5 @ [request_frame s5 1]\<rparr>"
  have r6: "runs (Suc (Suc 0)) s6"
    unfolding s6_def using f5 by (intro runs.steps[OF r5] step.write_ok) (simp_all add: respA_def respB_def)
  have f6: "at (callers s6 0) = Waiting \<and> at (callers s6 1) = Waiting \<and>
      num (callers s6 0) = 1 \<and> num (callers s6 1) = 2 \<and>
      ch (callers s6 0) = None \<and> ch (callers s6 1) = None \<and>
      returns (callers s6 0) = None \<and> returns (callers s6 1) = None \<and>
      pending s6 ''tf-1'' = Some 0 \<and> pending s6 ''tf-2'' = Some 1 \<and>
      readPump s6 = Reading \<and> nextID s6 = 2"
    using f5 by (simp add: s6_def id_of_def id1 id2)
  define s7 where "s7 = s6\<lparr>readPump := Sending respB 1\<rparr>"
  have r7: "runs (Suc (Suc 0)) s7"
    unfolding s7_def using f6 by (intro runs.steps[OF r6] step.route) (simp_all add: respA_def respB_def)
  have f7: "at (callers s7 0) = Waiting \<and> at (callers s7 1) = Waiting \<and>
      num (callers s7 0) = 1 \<and> num (callers s7 1) = 2 \<and>
      ch (callers s7 0) = None \<and> ch (callers s7 1) = None \<and>
      returns (callers s7 0) = None \<and> returns (callers s7 1) = None \<and>
      pending s7 ''tf-1'' = Some 0 \<and> pending s7 ''tf-2'' = Some 1 \<and>
      readPump s7 = Sending respB 1 \<and> nextID s7 = 2"
    using f6 by (simp add: s7_def id_of_def id1 id2 respB_def)
  define s8 where "s8 = (move 1 (\<lambda>c. c\<lparr>ch := Some respB\<rparr>) s7)\<lparr>readPump := Reading\<rparr>"
  have r8: "runs (Suc (Suc 0)) s8"
    unfolding s8_def using f7 by (intro runs.steps[OF r7] step.deliver) (simp_all add: respA_def respB_def)
  have f8: "at (callers s8 0) = Waiting \<and> at (callers s8 1) = Waiting \<and>
      num (callers s8 0) = 1 \<and> num (callers s8 1) = 2 \<and>
      ch (callers s8 0) = None \<and> ch (callers s8 1) = Some respB \<and>
      returns (callers s8 0) = None \<and> returns (callers s8 1) = None \<and>
      pending s8 ''tf-1'' = Some 0 \<and> pending s8 ''tf-2'' = Some 1 \<and>
      readPump s8 = Reading \<and> nextID s8 = 2"
    using f7 by (simp add: s8_def id_of_def id1 id2)
  define s9 where "s9 = s8\<lparr>readPump := Sending respA 0\<rparr>"
  have r9: "runs (Suc (Suc 0)) s9"
    unfolding s9_def using f8 by (intro runs.steps[OF r8] step.route) (simp_all add: respA_def respB_def)
  have f9: "at (callers s9 0) = Waiting \<and> at (callers s9 1) = Waiting \<and>
      num (callers s9 0) = 1 \<and> num (callers s9 1) = 2 \<and>
      ch (callers s9 0) = None \<and> ch (callers s9 1) = Some respB \<and>
      returns (callers s9 0) = None \<and> returns (callers s9 1) = None \<and>
      pending s9 ''tf-1'' = Some 0 \<and> pending s9 ''tf-2'' = Some 1 \<and>
      readPump s9 = Sending respA 0 \<and> nextID s9 = 2"
    using f8 by (simp add: s9_def id_of_def id1 id2 respA_def)
  define s10 where "s10 = (move 0 (\<lambda>c. c\<lparr>ch := Some respA\<rparr>) s9)\<lparr>readPump := Reading\<rparr>"
  have r10: "runs (Suc (Suc 0)) s10"
    unfolding s10_def using f9 by (intro runs.steps[OF r9] step.deliver) (simp_all add: respA_def respB_def)
  have f10: "at (callers s10 0) = Waiting \<and> at (callers s10 1) = Waiting \<and>
      num (callers s10 0) = 1 \<and> num (callers s10 1) = 2 \<and>
      ch (callers s10 0) = Some respA \<and> ch (callers s10 1) = Some respB \<and>
      returns (callers s10 0) = None \<and> returns (callers s10 1) = None \<and>
      pending s10 ''tf-1'' = Some 0 \<and> pending s10 ''tf-2'' = Some 1 \<and>
      readPump s10 = Reading \<and> nextID s10 = 2"
    using f9 by (simp add: s10_def id_of_def id1 id2)
  define s11 where "s11 = move 0 (\<lambda>c. c\<lparr>at := Deferred, ch := None, returns := Some (Inr respA)\<rparr>) s10"
  have r11: "runs (Suc (Suc 0)) s11"
    unfolding s11_def using f10 by (intro runs.steps[OF r10] step.receive) (simp_all add: respA_def respB_def)
  have f11: "at (callers s11 0) = Deferred \<and> at (callers s11 1) = Waiting \<and>
      num (callers s11 0) = 1 \<and> num (callers s11 1) = 2 \<and>
      ch (callers s11 0) = None \<and> ch (callers s11 1) = Some respB \<and>
      returns (callers s11 0) = Some (Inr respA) \<and> returns (callers s11 1) = None \<and>
      pending s11 ''tf-1'' = Some 0 \<and> pending s11 ''tf-2'' = Some 1 \<and>
      readPump s11 = Reading \<and> nextID s11 = 2"
    using f10 by (simp add: s11_def id_of_def id1 id2)
  define s12 where "s12 = move 1 (\<lambda>c. c\<lparr>at := Deferred, ch := None, returns := Some (Inr respB)\<rparr>) s11"
  have r12: "runs (Suc (Suc 0)) s12"
    unfolding s12_def using f11 by (intro runs.steps[OF r11] step.receive) (simp_all add: respA_def respB_def)
  have f12: "at (callers s12 0) = Deferred \<and> at (callers s12 1) = Deferred \<and>
      num (callers s12 0) = 1 \<and> num (callers s12 1) = 2 \<and>
      ch (callers s12 0) = None \<and> ch (callers s12 1) = None \<and>
      returns (callers s12 0) = Some (Inr respA) \<and> returns (callers s12 1) = Some (Inr respB) \<and>
      pending s12 ''tf-1'' = Some 0 \<and> pending s12 ''tf-2'' = Some 1 \<and>
      readPump s12 = Reading \<and> nextID s12 = 2"
    using f11 by (simp add: s12_def id_of_def id1 id2)
  define s13 where "s13 = (move 0 (\<lambda>c. c\<lparr>at := Returned\<rparr>) s12)\<lparr>pending := (pending s12)(id_of s12 0 := None)\<rparr>"
  have r13: "runs (Suc (Suc 0)) s13"
    unfolding s13_def using f12 by (intro runs.steps[OF r12] step.unregister) (simp_all add: respA_def respB_def)
  have f13: "at (callers s13 0) = Returned \<and> at (callers s13 1) = Deferred \<and>
      num (callers s13 0) = 1 \<and> num (callers s13 1) = 2 \<and>
      ch (callers s13 0) = None \<and> ch (callers s13 1) = None \<and>
      returns (callers s13 0) = Some (Inr respA) \<and> returns (callers s13 1) = Some (Inr respB) \<and>
      pending s13 ''tf-1'' = None \<and> pending s13 ''tf-2'' = Some 1 \<and>
      readPump s13 = Reading \<and> nextID s13 = 2"
    using f12 by (simp add: s13_def id_of_def id1 id2)
  define s14 where "s14 = (move 1 (\<lambda>c. c\<lparr>at := Returned\<rparr>) s13)\<lparr>pending := (pending s13)(id_of s13 1 := None)\<rparr>"
  have r14: "runs (Suc (Suc 0)) s14"
    unfolding s14_def using f13 by (intro runs.steps[OF r13] step.unregister) (simp_all add: respA_def respB_def)
  have f14: "at (callers s14 0) = Returned \<and> at (callers s14 1) = Returned \<and>
      num (callers s14 0) = 1 \<and> num (callers s14 1) = 2 \<and>
      ch (callers s14 0) = None \<and> ch (callers s14 1) = None \<and>
      returns (callers s14 0) = Some (Inr respA) \<and> returns (callers s14 1) = Some (Inr respB) \<and>
      pending s14 ''tf-1'' = None \<and> pending s14 ''tf-2'' = None \<and>
      readPump s14 = Reading \<and> nextID s14 = 2"
    using f13 by (simp add: s14_def id_of_def id1 id2)
  have small: "(2::nat) < 2 ^ 63" by simp
  have r: "runs 2 s14" using r14 by (simp add: numeral_2_eq_2)
  note T = call_receives_own_response[OF r small]
  from T f14 have own0: "frameID respA = id_of s14 0" and own1: "frameID respB = id_of s14 1"
    by blast+
  from f14 have "id_of s14 0 = ''tf-1''" "id_of s14 1 = ''tf-2''"
    by (simp_all add: id_of_def id1 id2)
  with own0 own1 have "frameID respA = ''tf-1''" "frameID respB = ''tf-2''" by (simp_all add: respA_def respB_def)
  with r small f14 show ?thesis by blast
qed

end
